theory Spec2Isabelle
  imports Main "HOL-Library.Sublist" "HOL-Library.AList" "HOL-Library.Char_ord"
    "HOL-Library.List_Lexorder"
begin

section \<open>Text and whitespace\<close>

text \<open>
  A document is a Python \<open>str\<close>. It is modelled as a \<open>string\<close>, one \<open>char\<close> per
  character of the document, for the characters with code points 0 to 255.

  \<open>isspace\<close> is the character class \<open>\s\<close> of Python's \<open>re\<close> on \<open>str\<close> patterns and the set
  that \<open>str.strip()\<close> removes: the code points 9 to 13, 28 to 32, 133 and 160 in that range.
\<close>

definition isspace :: "char \<Rightarrow> bool" where
  "isspace c = (let n = (of_char c :: nat) in
     (9 \<le> n \<and> n \<le> 13) \<or> (28 \<le> n \<and> n \<le> 32) \<or> n = 133 \<or> n = 160)"

definition newline :: char where
  "newline = CHR 0x0A"

definition strip_chars :: "(char \<Rightarrow> bool) \<Rightarrow> string \<Rightarrow> string" where
  "strip_chars p s = rev (dropWhile p (rev (dropWhile p s)))"

text \<open>\<open>content.strip()\<close>.\<close>

definition strip :: "string \<Rightarrow> string" where
  "strip s = strip_chars isspace s"

text \<open>\<open>value.strip('"\'')\<close>.\<close>

definition is_quote :: "char \<Rightarrow> bool" where
  "is_quote c = (c = CHR 0x22 \<or> c = CHR 0x27)"

definition strip_quotes :: "string \<Rightarrow> string" where
  "strip_quotes s = strip_chars is_quote s"

section \<open>The regular expressions of the program\<close>

text \<open>
  Every pattern the program gives to \<open>re\<close> is a concatenation of literal characters,
  single-character classes under \<open>*\<close>, \<open>*?\<close> or \<open>+\<close>, and the anchors \<open>^\<close> and \<open>$\<close>.
  \<open>AnyChr\<close> is \<open>.\<close> under \<open>re.DOTALL\<close>, \<open>NotChr c\<close> is \<open>[^c]\<close>, \<open>Space\<close> is \<open>\s\<close>.
  \<open>Bol\<close> and \<open>Eol\<close> are \<open>^\<close> and \<open>$\<close> under \<open>re.MULTILINE\<close>; \<open>Bos\<close> is \<open>^\<close> without it.
\<close>

datatype cls = AnyChr | NotChr char | Space

datatype quant = Greedy | Lazy

datatype atom = Lit char | Star cls quant | Plus cls | Bol | Eol | Bos

fun in_cls :: "cls \<Rightarrow> char \<Rightarrow> bool" where
  "in_cls AnyChr c = True"
| "in_cls (NotChr d) c = (c \<noteq> d)"
| "in_cls Space c = isspace c"

definition lits :: "string \<Rightarrow> atom list" where
  "lits w = map Lit w"

text \<open>
  \<open>match_here pat prev s\<close> is the backtracking search of \<open>re\<close> for a match of \<open>pat\<close> that
  starts at the head of \<open>s\<close>, where \<open>prev\<close> is the character of the subject just before
  it (\<open>None\<close> at the start of the subject). It returns the length of the first match in
  the order of the search: a greedy repetition tries one more character before it
  tries the rest of the pattern, a lazy one tries the rest of the pattern first.
\<close>

fun match_here :: "atom list \<Rightarrow> char option \<Rightarrow> string \<Rightarrow> nat option" where
  "match_here [] prev s = Some 0"
| "match_here (Lit c # r) prev [] = None"
| "match_here (Lit c # r) prev (x # xs) =
     (if x = c then map_option Suc (match_here r (Some x) xs) else None)"
| "match_here (Star k Greedy # r) prev [] = match_here r prev []"
| "match_here (Star k Greedy # r) prev (x # xs) =
     (if in_cls k x
      then (case match_here (Star k Greedy # r) (Some x) xs of
              Some n \<Rightarrow> Some (Suc n)
            | None \<Rightarrow> match_here r prev (x # xs))
      else match_here r prev (x # xs))"
| "match_here (Star k Lazy # r) prev [] = match_here r prev []"
| "match_here (Star k Lazy # r) prev (x # xs) =
     (case match_here r prev (x # xs) of
        Some n \<Rightarrow> Some n
      | None \<Rightarrow> (if in_cls k x
                 then map_option Suc (match_here (Star k Lazy # r) (Some x) xs)
                 else None))"
| "match_here (Plus k # r) prev [] = None"
| "match_here (Plus k # r) prev (x # xs) =
     (if in_cls k x then map_option Suc (match_here (Star k Greedy # r) (Some x) xs)
      else None)"
| "match_here (Bol # r) prev s =
     (if prev = None \<or> prev = Some newline then match_here r prev s else None)"
| "match_here (Eol # r) prev s =
     (if s = [] \<or> take 1 s = [newline] then match_here r prev s else None)"
| "match_here (Bos # r) prev s =
     (if prev = None then match_here r prev s else None)"

text \<open>
  \<open>re.sub(pat, repl, s)\<close> with a constant replacement: the subject is scanned from the
  left, each match found is replaced and the scan goes on after it. No pattern of the
  program matches the empty string (each has a literal or a \<open>+\<close>), so a match has at
  least one character.
\<close>

function re_sub :: "atom list \<Rightarrow> string \<Rightarrow> char option \<Rightarrow> string \<Rightarrow> string" where
  "re_sub pat repl prev [] = []"
| "re_sub pat repl prev (x # xs) =
     (case match_here pat prev (x # xs) of
        Some (Suc n) \<Rightarrow> repl @ re_sub pat repl (Some (last (x # take n xs))) (drop n xs)
      | _ \<Rightarrow> x # re_sub pat repl (Some x) xs)"
  by pat_completeness auto
termination
  by (relation "measure (\<lambda>(pat, repl, prev, s). length s)") auto

definition sub :: "atom list \<Rightarrow> string \<Rightarrow> string \<Rightarrow> string" where
  "sub pat repl s = re_sub pat repl None s"

section \<open>The Markup Stripper\<close>

definition components :: "string list" where
  "components = [''Card'', ''CardGroup'', ''Tabs'', ''TabItem'', ''ResponseField'',
     ''ParamField'', ''Expandable'', ''RequestExample'', ''ResponseExample'',
     ''CodeGroup'', ''Tip'', ''Info'', ''Warning'', ''Note'', ''Steps'', ''Step'',
     ''Frame'', ''Check'', ''CodeBlock'', ''Col'', ''TagFilters'' @ ''Properties'',
     ''Property'', ''Accordion'', ''AccordionGroup'', ''Update'', ''Snippet'']"

text \<open>\<open>r'\{/\*\s*Mintlify.*?\*/\}'\<close> with \<open>re.DOTALL\<close>.\<close>

definition comment_pat :: "atom list" where
  "comment_pat = lits ''{/*'' @ [Star Space Greedy] @ lits ''Mintlify''
     @ [Star AnyChr Lazy] @ lits ''*/}''"

text \<open>\<open>f'<{component}[^>]*>.*?</{component}>'\<close> with \<open>re.DOTALL\<close>.\<close>

definition paired_pat :: "string \<Rightarrow> atom list" where
  "paired_pat component = lits (''<'' @ component) @ [Star (NotChr CHR ''>'') Greedy]
     @ lits ''>'' @ [Star AnyChr Lazy] @ lits (''</'' @ component @ ''>'')"

text \<open>\<open>f'<{component}[^>]*/>'\<close>.\<close>

definition selfclosing_pat :: "string \<Rightarrow> atom list" where
  "selfclosing_pat component =
     lits (''<'' @ component) @ [Star (NotChr CHR ''>'') Greedy] @ lits ''/>''"

text \<open>\<open>f'<{component}[^>]*>'\<close> and \<open>f'</{component}>'\<close>.\<close>

definition open_pat :: "string \<Rightarrow> atom list" where
  "open_pat component =
     lits (''<'' @ component) @ [Star (NotChr CHR ''>'') Greedy] @ lits ''>''"

definition close_pat :: "string \<Rightarrow> atom list" where
  "close_pat component = lits (''</'' @ component @ ''>'')"

text \<open>\<open>r'\n\s*\n\s*\n'\<close>, \<open>r'^\s+$'\<close> with \<open>re.MULTILINE\<close>, \<open>r'\s+\n'\<close>.\<close>

definition blank_lines_pat :: "atom list" where
  "blank_lines_pat =
     [Lit newline, Star Space Greedy, Lit newline, Star Space Greedy, Lit newline]"

definition space_line_pat :: "atom list" where
  "space_line_pat = [Bol, Plus Space, Eol]"

definition trailing_space_pat :: "atom list" where
  "trailing_space_pat = [Plus Space, Lit newline]"

text \<open>The passes of \<open>process_mdx_content\<close>, in the order of the source.\<close>

definition remove_comments :: "string \<Rightarrow> string" where
  "remove_comments content = sub comment_pat [] content"

definition remove_paired :: "string \<Rightarrow> string" where
  "remove_paired content = fold (\<lambda>component c. sub (paired_pat component) [] c) components content"

definition remove_selfclosing :: "string \<Rightarrow> string" where
  "remove_selfclosing content =
     fold (\<lambda>component c. sub (selfclosing_pat component) [] c) components content"

definition remove_bare :: "string \<Rightarrow> string" where
  "remove_bare content =
     fold (\<lambda>component c. sub (close_pat component) [] (sub (open_pat component) [] c))
       components content"

definition clean_whitespace :: "string \<Rightarrow> string" where
  "clean_whitespace content =
     sub trailing_space_pat [newline]
       (sub space_line_pat []
         (sub blank_lines_pat [newline, newline] content))"

definition process_mdx_content :: "string \<Rightarrow> string" where
  "process_mdx_content content =
     strip (clean_whitespace (remove_bare (remove_selfclosing (remove_paired
       (remove_comments content)))))"

section \<open>The Frontmatter Normalizer\<close>

text \<open>
  The values \<open>yaml.safe_load\<close> builds: \<open>None\<close>, booleans, integers, strings, lists and
  dicts. A dict is an association list in insertion order.
\<close>

datatype yaml = YNull | YBool bool | YInt int | YStr string
  | YSeq "yaml list" | YMap "(yaml \<times> yaml) list"

text \<open>
  The exceptions of the normalizer. \<open>Unmodelled\<close> is not a Python exception: the models
  of the YAML library below return it on the inputs they do not cover.
\<close>

datatype error = YAMLError | AttributeError | TypeError | KeyError | Unmodelled

definition dquote :: char where
  "dquote = CHR 0x22"

definition squote :: char where
  "squote = CHR 0x27"

text \<open>\<open>re.match(r'^---\n(.*?)\n---', content, re.DOTALL)\<close>: the length of the match.\<close>

definition frontmatter_pat :: "atom list" where
  "frontmatter_pat = [Bos] @ lits (''---'' @ [newline]) @ [Star AnyChr Lazy]
     @ lits ([newline] @ ''---'')"

definition frontmatter_match :: "string \<Rightarrow> nat option" where
  "frontmatter_match content = match_here frontmatter_pat None content"

text \<open>
  \<open>frontmatter_match.group(1)\<close>: the match without the four characters of the opening
  \<open>---\n\<close> and the four of the closing \<open>\n---\<close>.
\<close>

definition group1 :: "string \<Rightarrow> nat \<Rightarrow> string" where
  "group1 content n = take (n - 8) (drop 4 content)"

definition frontmatter_mapping :: "(string \<times> string) list" where
  "frontmatter_mapping = [(''sidebarTitle'', ''sidebar_label''),
     (''description'', ''description''), (''title'', ''title'')]"

text \<open>Python's truth value of a parsed value, for \<open>yaml.safe_load(fm_content) or {}\<close>.\<close>

fun truthy :: "yaml \<Rightarrow> bool" where
  "truthy YNull = False"
| "truthy (YBool b) = b"
| "truthy (YInt i) = (i \<noteq> 0)"
| "truthy (YStr s) = (s \<noteq> [])"
| "truthy (YSeq xs) = (xs \<noteq> [])"
| "truthy (YMap m) = (m \<noteq> [])"

text \<open>
  \<open>key in fm_data\<close> for a string \<open>key\<close>: a key of a dict, an element of a list, a
  substring of a string; an integer or a boolean is not iterable.
\<close>

fun py_in :: "string \<Rightarrow> yaml \<Rightarrow> error + bool" where
  "py_in key (YMap m) = Inr (YStr key \<in> set (map fst m))"
| "py_in key (YSeq xs) = Inr (YStr key \<in> set xs)"
| "py_in key (YStr s) = Inr (sublist key s)"
| "py_in key v = Inl TypeError"

text \<open>\<open>fm_data[key]\<close> for a string \<open>key\<close>.\<close>

fun py_getitem :: "yaml \<Rightarrow> string \<Rightarrow> error + yaml" where
  "py_getitem (YMap m) key =
     (case map_of m (YStr key) of None \<Rightarrow> Inl KeyError | Some v \<Rightarrow> Inr v)"
| "py_getitem v key = Inl TypeError"

text \<open>\<open>value.strip('"\'')\<close> followed by \<open>f'"{value}"'\<close>.\<close>

definition requote :: "string \<Rightarrow> string" where
  "requote v = [dquote] @ strip_quotes v @ [dquote]"

text \<open>
  The title is handled first; \<open>.strip\<close> is called on its value whatever its type, and
  only a string has that method.
\<close>

definition handle_title :: "yaml \<Rightarrow> error + (string \<times> yaml) list" where
  "handle_title fm_data =
     (case py_in ''title'' fm_data of
        Inl e \<Rightarrow> Inl e
      | Inr present \<Rightarrow>
          if present then
            (case py_getitem fm_data ''title'' of
               Inl e \<Rightarrow> Inl e
             | Inr (YStr v) \<Rightarrow> Inr (AList.update ''title'' (YStr (requote v)) [])
             | Inr _ \<Rightarrow> Inl AttributeError)
          else Inr [])"

text \<open>
  In the loop, a value that is a string is stripped of its quotes and quoted again;
  any other value is kept as it is.
\<close>

definition clean_value :: "yaml \<Rightarrow> yaml" where
  "clean_value v = (case v of YStr s \<Rightarrow> YStr (requote s) | _ \<Rightarrow> v)"

text \<open>The loop over \<open>self.frontmatter_mapping.items()\<close>.\<close>

fun map_fields :: "yaml \<Rightarrow> (string \<times> string) list \<Rightarrow> (string \<times> yaml) list
    \<Rightarrow> error + (string \<times> yaml) list" where
  "map_fields fm_data [] new_fm = Inr new_fm"
| "map_fields fm_data ((old_key, new_key) # rest) new_fm =
     (case py_in old_key fm_data of
        Inl e \<Rightarrow> Inl e
      | Inr present \<Rightarrow>
          if present \<and> old_key \<noteq> ''title'' then
            (case py_getitem fm_data old_key of
               Inl e \<Rightarrow> Inl e
             | Inr v \<Rightarrow>
                 map_fields fm_data rest (AList.update new_key (clean_value v) new_fm))
          else map_fields fm_data rest new_fm)"

definition build_new_fm :: "yaml \<Rightarrow> error + (string \<times> yaml) list" where
  "build_new_fm fm_data =
     (case handle_title fm_data of
        Inl e \<Rightarrow> Inl e
      | Inr new_fm \<Rightarrow> map_fields fm_data frontmatter_mapping new_fm)"

text \<open>
  \<open>clean_frontmatter\<close>. The YAML library is not part of the repository: \<open>safe_load\<close> and
  \<open>dump\<close> stand for \<open>yaml.safe_load\<close> and for
  \<open>yaml.dump(_, default_flow_style=False, allow_unicode=True)\<close>. The result is \<open>Inr\<close>
  the text returned or \<open>Inl\<close> the exception that leaves the function; only
  \<open>yaml.YAMLError\<close> is caught.
\<close>

definition clean_frontmatter :: "(string \<Rightarrow> error + yaml)
    \<Rightarrow> ((string \<times> yaml) list \<Rightarrow> error + string) \<Rightarrow> string \<Rightarrow> error + string" where
  "clean_frontmatter safe_load dump content =
     (case frontmatter_match content of
        None \<Rightarrow> Inr content
      | Some n \<Rightarrow>
          (case safe_load (group1 content n) of
             Inl e \<Rightarrow> (if e = YAMLError then Inr content else Inl e)
           | Inr parsed \<Rightarrow>
               (case build_new_fm (if truthy parsed then parsed else YMap []) of
                  Inl e \<Rightarrow> (if e = YAMLError then Inr content else Inl e)
                | Inr new_fm \<Rightarrow>
                    (case dump new_fm of
                       Inl e \<Rightarrow> (if e = YAMLError then Inr content else Inl e)
                     | Inr new_fm_str \<Rightarrow>
                         Inr (''---'' @ [newline] @ new_fm_str @ ''---'' @ [newline]
                              @ drop n content)))))"

section \<open>The YAML library on simple frontmatter\<close>

text \<open>
  PyYAML is a dependency of the program, not part of it. \<open>yaml_safe_load\<close> and
  \<open>yaml_dump\<close> describe what \<open>yaml.safe_load\<close> and
  \<open>yaml.dump(_, default_flow_style=False, allow_unicode=True)\<close> do on the frontmatter
  that the properties below are about, and answer \<open>Inl Unmodelled\<close> on everything else.

  \<open>yaml_safe_load\<close> covers a body whose non-empty lines are each \<open>key: value\<close>, where
  the key is a plain word and the value is a single-quoted or double-quoted string
  without quotes or backslashes inside, a decimal integer, or a plain word. A plain
  word that YAML 1.1 reads as a boolean or as null is resolved so; any other is a
  string. A later entry with the same key replaces the value of the earlier one.
\<close>

definition is_alpha :: "char \<Rightarrow> bool" where
  "is_alpha c = (let n = (of_char c :: nat) in (65 \<le> n \<and> n \<le> 90) \<or> (97 \<le> n \<and> n \<le> 122))"

definition is_digit :: "char \<Rightarrow> bool" where
  "is_digit c = (let n = (of_char c :: nat) in 48 \<le> n \<and> n \<le> 57)"

definition is_printable :: "char \<Rightarrow> bool" where
  "is_printable c = (let n = (of_char c :: nat) in 32 \<le> n \<and> n \<le> 126)"

definition true_words :: "string list" where
  "true_words = [''yes'', ''Yes'', ''YES'', ''true'', ''True'', ''TRUE'', ''on'', ''On'', ''ON'']"

definition false_words :: "string list" where
  "false_words = [''no'', ''No'', ''NO'', ''false'', ''False'', ''FALSE'', ''off'', ''Off'', ''OFF'']"

definition null_words :: "string list" where
  "null_words = [''null'', ''Null'', ''NULL'']"

definition is_word :: "string \<Rightarrow> bool" where
  "is_word w = (case w of [] \<Rightarrow> False
     | c # cs \<Rightarrow> is_alpha c \<and> list_all (\<lambda>d. is_alpha d \<or> is_digit d \<or> d = CHR ''_'') cs)"

definition is_plain_key :: "string \<Rightarrow> bool" where
  "is_plain_key w = (is_word w \<and> w \<notin> set (true_words @ false_words @ null_words))"

definition is_decimal :: "string \<Rightarrow> bool" where
  "is_decimal w = (case w of [] \<Rightarrow> False
     | c # cs \<Rightarrow> list_all is_digit (c # cs) \<and> (if c = CHR ''0'' then cs = [] else True))"

definition decimal_value :: "string \<Rightarrow> int" where
  "decimal_value w = foldl (\<lambda>a d. 10 * a + (int (of_char d) - 48)) 0 w"

definition resolve_plain :: "string \<Rightarrow> error + yaml" where
  "resolve_plain w =
     (if is_decimal w then Inr (YInt (decimal_value w))
      else if is_word w then
        (if w \<in> set true_words then Inr (YBool True)
         else if w \<in> set false_words then Inr (YBool False)
         else if w \<in> set null_words then Inr YNull
         else Inr (YStr w))
      else Inl Unmodelled)"

definition parse_quoted :: "char \<Rightarrow> string \<Rightarrow> error + yaml" where
  "parse_quoted q rest =
     (if rest \<noteq> [] \<and> last rest = q
         \<and> list_all (\<lambda>d. is_printable d \<and> d \<noteq> q \<and> d \<noteq> CHR 0x5C) (butlast rest)
      then Inr (YStr (butlast rest)) else Inl Unmodelled)"

definition parse_scalar :: "string \<Rightarrow> error + yaml" where
  "parse_scalar v = (case v of [] \<Rightarrow> Inl Unmodelled
     | c # rest \<Rightarrow> if c = squote \<or> c = dquote then parse_quoted c rest
                   else resolve_plain v)"

definition parse_line :: "string \<Rightarrow> error + (yaml \<times> yaml)" where
  "parse_line l =
     (let key = takeWhile (\<lambda>c. c \<noteq> CHR '':'') l;
          rest = dropWhile (\<lambda>c. c \<noteq> CHR '':'') l
      in if is_plain_key key \<and> take 2 rest = '': '' then
           (case parse_scalar (drop 2 rest) of
              Inl e \<Rightarrow> Inl e
            | Inr v \<Rightarrow> Inr (YStr key, v))
         else Inl Unmodelled)"

fun split_on :: "char \<Rightarrow> string \<Rightarrow> string list" where
  "split_on c [] = [[]]"
| "split_on c (x # xs) =
     (if x = c then [] # split_on c xs
      else (case split_on c xs of [] \<Rightarrow> [[x]] | l # ls \<Rightarrow> (x # l) # ls))"

fun load_lines :: "string list \<Rightarrow> (yaml \<times> yaml) list \<Rightarrow> error + (yaml \<times> yaml) list" where
  "load_lines [] m = Inr m"
| "load_lines (l # ls) m =
     (if l = [] then load_lines ls m
      else (case parse_line l of
              Inl e \<Rightarrow> Inl e
            | Inr (k, v) \<Rightarrow> load_lines ls (AList.update k v m)))"

definition yaml_safe_load :: "string \<Rightarrow> error + yaml" where
  "yaml_safe_load body =
     (case load_lines (split_on newline body) [] of
        Inl e \<Rightarrow> Inl e
      | Inr m \<Rightarrow> Inr (if m = [] then YNull else YMap m))"

text \<open>
  \<open>yaml_dump\<close> covers a dict whose keys are plain words and whose values are \<open>None\<close>,
  booleans, integers, or short strings of printable ASCII that begin with a double
  quote. The empty dict is written in flow style, \<open>{}\<close>. Otherwise the entries are
  written one per line, sorted by key (\<open>sort_keys\<close> is \<open>True\<close> unless the caller
  says otherwise). A string that begins with a double quote cannot be a plain scalar,
  and is written in single quotes, each single quote inside doubled.
\<close>

definition digit_char :: "nat \<Rightarrow> char" where
  "digit_char d = char_of (48 + d)"

function show_nat :: "nat \<Rightarrow> string" where
  "show_nat n = (if n < 10 then [digit_char n] else show_nat (n div 10) @ [digit_char (n mod 10)])"
  by pat_completeness auto
termination
  by (relation "measure id") auto

definition show_int :: "int \<Rightarrow> string" where
  "show_int i = (if i < 0 then ''-'' @ show_nat (nat (- i)) else show_nat (nat i))"

definition single_quoted :: "string \<Rightarrow> string" where
  "single_quoted s =
     [squote] @ concat (map (\<lambda>c. if c = squote then [squote, squote] else [c]) s) @ [squote]"

definition emit_value :: "yaml \<Rightarrow> error + string" where
  "emit_value v = (case v of
       YNull \<Rightarrow> Inr ''null''
     | YBool b \<Rightarrow> Inr (if b then ''true'' else ''false'')
     | YInt i \<Rightarrow> Inr (show_int i)
     | YStr s \<Rightarrow> if take 1 s = [dquote] \<and> list_all is_printable s \<and> length s \<le> 40
                 then Inr (single_quoted s) else Inl Unmodelled
     | _ \<Rightarrow> Inl Unmodelled)"

fun emit_items :: "(string \<times> yaml) list \<Rightarrow> error + string" where
  "emit_items [] = Inr []"
| "emit_items ((k, v) # rest) =
     (if is_plain_key k \<and> length k \<le> 20 then
        (case emit_value v of
           Inl e \<Rightarrow> Inl e
         | Inr t \<Rightarrow> (case emit_items rest of
                       Inl e \<Rightarrow> Inl e
                     | Inr out \<Rightarrow> Inr (k @ '': '' @ t @ [newline] @ out)))
      else Inl Unmodelled)"

definition yaml_dump :: "(string \<times> yaml) list \<Rightarrow> error + string" where
  "yaml_dump new_fm =
     (if new_fm = [] then Inr (''{}'' @ [newline]) else emit_items (sort_key fst new_fm))"

section \<open>Predicates on documents\<close>

text \<open>
  \<open>tags_closed s\<close>: every \<open><\<close> of \<open>s\<close> is followed by a \<open>>\<close> before any further \<open><\<close>, so
  that every tag that is opened is closed before the next one opens.
\<close>

fun closes :: "string \<Rightarrow> bool" where
  "closes [] = False"
| "closes (x # xs) = (if x = CHR ''>'' then True else if x = CHR ''<'' then False else closes xs)"

fun tags_closed :: "string \<Rightarrow> bool" where
  "tags_closed [] = True"
| "tags_closed (x # xs) = ((if x = CHR ''<'' then closes xs else True) \<and> tags_closed xs)"

text \<open>\<open>space_before_newline s\<close>: some whitespace character of \<open>s\<close> is followed at once by a newline.\<close>

fun space_before_newline :: "string \<Rightarrow> bool" where
  "space_before_newline (x # y # ys) =
     ((isspace x \<and> y = newline) \<or> space_before_newline (y # ys))"
| "space_before_newline xs = False"

text \<open>\<open>has_component_tag s\<close>: \<open>s\<close> has \<open><Name\<close> or \<open></Name>\<close> for a name of the component list.\<close>

definition has_component_tag :: "string \<Rightarrow> bool" where
  "has_component_tag s =
     list_ex (\<lambda>component. sublist (''<'' @ component) s \<or> sublist (''</'' @ component @ ''>'') s)
       components"

text \<open>A component name has no angle bracket and no whitespace in it.\<close>

definition plain :: "string \<Rightarrow> bool" where
  "plain w = list_all (\<lambda>c. c \<noteq> CHR ''<'' \<and> c \<noteq> CHR ''>'' \<and> \<not> isspace c) w"

text \<open>
  \<open>cut_tags s r\<close>: \<open>r\<close> is \<open>s\<close> without some stretches that each begin with \<open><\<close> and end
  with \<open>>\<close>. \<open>respaced s r\<close>: \<open>r\<close> is \<open>s\<close> with some stretches of whitespace replaced by
  whitespace, where a stretch is replaced by nothing only at the end of the text or
  before whitespace.
\<close>

inductive cut_tags :: "string \<Rightarrow> string \<Rightarrow> bool" where
  cut_Nil: "cut_tags [] []"
| cut_keep: "cut_tags s r \<Longrightarrow> cut_tags (x # s) (x # r)"
| cut_cut: "cut_tags s r \<Longrightarrow> cut_tags (CHR ''<'' # m @ CHR ''>'' # s) r"

inductive respaced :: "string \<Rightarrow> string \<Rightarrow> bool" where
  resp_Nil: "respaced [] []"
| resp_keep: "respaced s r \<Longrightarrow> respaced (x # s) (x # r)"
| resp_cut: "respaced s r \<Longrightarrow> list_all isspace m \<Longrightarrow> list_all isspace t \<Longrightarrow>
     t \<noteq> [] \<or> r = [] \<or> isspace (hd r) \<Longrightarrow> respaced (m @ s) (t @ r)"

text \<open>A pattern all of whose atoms match whitespace only.\<close>

fun space_atom :: "atom \<Rightarrow> bool" where
  "space_atom (Lit c) = isspace c"
| "space_atom (Star k q) = (k = Space)"
| "space_atom (Plus k) = (k = Space)"
| "space_atom a = True"

section \<open>Matching and substitution\<close>

subsection \<open>What a match looks like\<close>

lemma match_here_le: "match_here pat prev s = Some n \<Longrightarrow> n \<le> length s"
  by (induction pat prev s arbitrary: n rule: match_here.induct)
     (auto split: if_splits option.splits)

lemma lits_Cons [simp]: "lits (a # w) = Lit a # lits w"
  by (simp add: lits_def)

lemma lits_Nil [simp]: "lits [] = []"
  by (simp add: lits_def)

lemma lits_append [simp]: "lits (u @ v) = lits u @ lits v"
  by (simp add: lits_def)

text \<open>No pattern that the program substitutes matches the empty string.\<close>

lemma match_nonempty:
  assumes "pat \<in> {comment_pat, paired_pat c, selfclosing_pat c, open_pat c, close_pat c,
     blank_lines_pat, space_line_pat, trailing_space_pat}"
  shows "match_here pat prev s \<noteq> Some 0"
  using assms
  by (cases s)
     (auto simp: comment_pat_def paired_pat_def selfclosing_pat_def open_pat_def
        close_pat_def blank_lines_pat_def space_line_pat_def trailing_space_pat_def
        split: if_splits)

lemma match_here_lits_prefix:
  "match_here (lits w @ r) prev s = Some n \<Longrightarrow> prefix w s"
proof (induction w arbitrary: prev s n)
  case Nil
  then show ?case by simp
next
  case (Cons a w)
  then show ?case
    by (cases s) (auto split: if_splits)
qed

lemma match_here_last_lit:
  "pat \<noteq> [] \<Longrightarrow> last pat = Lit c \<Longrightarrow> match_here pat prev s = Some n
   \<Longrightarrow> take n s \<noteq> [] \<and> last (take n s) = c"
  by (induction pat prev s arbitrary: n rule: match_here.induct)
     (auto split: if_splits option.splits)

lemma match_here_spaces:
  "list_all space_atom pat \<Longrightarrow> match_here pat prev s = Some n
   \<Longrightarrow> list_all isspace (take n s)"
  by (induction pat prev s arbitrary: n rule: match_here.induct)
     (auto split: if_splits option.splits)

lemma tag_match:
  assumes "p \<noteq> []" and "last p = Lit CHR ''>''"
    and "match_here (Lit CHR ''<'' # p) prev (x # xs) = Some n"
  shows "\<exists>k m. n = Suc (Suc k) \<and> x = CHR ''<'' \<and> take (Suc k) xs = m @ [CHR ''>'']"
proof -
  from assms(3) obtain n' where x: "x = CHR ''<''" and n: "n = Suc n'"
    and m: "match_here p (Some x) xs = Some n'"
    by (auto split: if_splits)
  from match_here_last_lit [OF assms(1,2) m]
  have ne: "take n' xs \<noteq> []" and l: "last (take n' xs) = CHR ''>''" by simp_all
  from ne obtain k where k: "n' = Suc k" by (cases n') auto
  from ne l have "take n' xs = butlast (take n' xs) @ [CHR ''>'']"
    by (metis append_butlast_last_id)
  with x n k show ?thesis by blast
qed

lemma re_sub_cut_tags:
  assumes "p \<noteq> []" and "last p = Lit CHR ''>''"
  shows "cut_tags s (re_sub (Lit CHR ''<'' # p) [] prev s)"
proof (induction s arbitrary: prev rule: length_induct)
  case (1 s)
  show ?case
  proof (cases s)
    case Nil
    then show ?thesis by (simp add: cut_Nil)
  next
    case (Cons x xs)
    show ?thesis
    proof (cases "match_here (Lit CHR ''<'' # p) prev (x # xs)")
      case None
      with Cons 1 show ?thesis by (simp add: cut_keep)
    next
      case (Some n)
      from tag_match [OF assms Some] obtain k m where n: "n = Suc (Suc k)"
        and x: "x = CHR ''<''" and t: "take (Suc k) xs = m @ [CHR ''>'']"
        by blast
      have xs: "xs = m @ CHR ''>'' # drop (Suc k) xs"
        using append_take_drop_id [of "Suc k" xs] t by simp
      have "cut_tags (drop (Suc k) xs)
              (re_sub (Lit CHR ''<'' # p) [] (Some (last (x # take (Suc k) xs))) (drop (Suc k) xs))"
        using 1 Cons by simp
      then have "cut_tags (CHR ''<'' # m @ CHR ''>'' # drop (Suc k) xs)
              (re_sub (Lit CHR ''<'' # p) [] (Some (last (x # take (Suc k) xs))) (drop (Suc k) xs))"
        by (rule cut_cut)
      with xs x have "cut_tags (x # xs)
              (re_sub (Lit CHR ''<'' # p) [] (Some (last (x # take (Suc k) xs))) (drop (Suc k) xs))"
        by simp
      with Cons Some n show ?thesis by simp
    qed
  qed
qed

subsection \<open>Cutting tags out of a text whose tags are closed\<close>

lemma tags_closed_append: "tags_closed (a @ b) \<Longrightarrow> tags_closed b"
  by (induction a) auto

lemma tags_closed_drop: "tags_closed s \<Longrightarrow> tags_closed (drop n s)"
  using tags_closed_append [of "take n s" "drop n s"] by simp

lemma closes_gt: "closes s \<Longrightarrow> CHR ''>'' \<in> set s"
  by (induction s) (auto split: if_splits)

lemma closes_append_plain:
  "CHR ''<'' \<notin> set c \<Longrightarrow> CHR ''>'' \<notin> set c \<Longrightarrow> closes (c @ t) = closes t"
  by (induction c) auto

lemma cut_tags_closes: "cut_tags s r \<Longrightarrow> closes s \<Longrightarrow> closes r"
  by (induction rule: cut_tags.induct) (auto split: if_splits)

lemma cut_tags_closed: "cut_tags s r \<Longrightarrow> tags_closed s \<Longrightarrow> tags_closed r"
proof (induction rule: cut_tags.induct)
  case cut_Nil
  then show ?case by simp
next
  case (cut_keep s r x)
  then show ?case by (auto dest: cut_tags_closes)
next
  case (cut_cut s r m)
  from cut_cut.prems have "tags_closed ((CHR ''<'' # m @ [CHR ''>'']) @ s)" by simp
  then have "tags_closed s" by (rule tags_closed_append)
  then show ?case by (rule cut_cut.IH)
qed

lemma cut_tags_prefix:
  "cut_tags s r \<Longrightarrow> closes s \<Longrightarrow> prefix w r \<Longrightarrow> CHR ''<'' \<notin> set w
   \<Longrightarrow> CHR ''>'' \<notin> set (butlast w) \<Longrightarrow> prefix w s"
proof (induction arbitrary: w rule: cut_tags.induct)
  case cut_Nil
  then show ?case by simp
next
  case (cut_keep s r x)
  show ?case
  proof (cases w)
    case Nil
    then show ?thesis by simp
  next
    case (Cons y w')
    with cut_keep.prems have y: "y = x" and p: "prefix w' r" by simp_all
    show ?thesis
    proof (cases "w' = []")
      case True
      with Cons y show ?thesis by simp
    next
      case False
      with cut_keep.prems Cons y have x: "x \<noteq> CHR ''>''" "x \<noteq> CHR ''<''"
        and b: "CHR ''>'' \<notin> set (butlast w')" and l: "CHR ''<'' \<notin> set w'"
        by auto
      with cut_keep.prems have "closes s" by simp
      from cut_keep.IH [OF this p l b] Cons y show ?thesis by simp
    qed
  qed
next
  case (cut_cut s r m)
  then show ?case by simp
qed

lemma sublist_suffix: "sublist w s \<Longrightarrow> sublist w (a @ s)"
  by (metis sublist_append)

lemma cut_tags_sublist:
  "cut_tags s r \<Longrightarrow> tags_closed s \<Longrightarrow> sublist (CHR ''<'' # w) r \<Longrightarrow> CHR ''<'' \<notin> set w
   \<Longrightarrow> CHR ''>'' \<notin> set (butlast w) \<Longrightarrow> sublist (CHR ''<'' # w) s"
proof (induction rule: cut_tags.induct)
  case cut_Nil
  then show ?case by simp
next
  case (cut_keep s r x)
  from cut_keep.prems(2) consider "prefix (CHR ''<'' # w) (x # r)" | "sublist (CHR ''<'' # w) r"
    by (auto simp: sublist_Cons_right)
  then show ?case
  proof cases
    case 1
    then have x: "x = CHR ''<''" and p: "prefix w r" by simp_all
    with cut_keep.prems have "closes s" by simp
    from cut_tags_prefix [OF cut_keep.hyps this p cut_keep.prems(3,4)] x
    have "prefix (CHR ''<'' # w) (x # s)" by simp
    then show ?thesis by (rule prefix_imp_sublist)
  next
    case 2
    with cut_keep have "sublist (CHR ''<'' # w) s" by simp
    then show ?thesis by (simp add: sublist_Cons_right)
  qed
next
  case (cut_cut s r m)
  from cut_cut.prems have "tags_closed ((CHR ''<'' # m @ [CHR ''>'']) @ s)" by simp
  then have "tags_closed s" by (rule tags_closed_append)
  with cut_cut have "sublist (CHR ''<'' # w) s" by simp
  then have "sublist (CHR ''<'' # w) ((CHR ''<'' # m @ [CHR ''>'']) @ s)"
    by (rule sublist_suffix)
  then show ?case by simp
qed

subsection \<open>A substitution that finds every tag removes every tag\<close>

lemma re_sub_eliminates:
  assumes p: "p \<noteq> []" "last p = Lit CHR ''>''"
    and complete: "\<And>prev t. prefix (CHR ''<'' # w) t \<Longrightarrow> closes (tl t)
                     \<Longrightarrow> match_here (Lit CHR ''<'' # p) prev t \<noteq> None"
    and w: "CHR ''<'' \<notin> set w" "CHR ''>'' \<notin> set (butlast w)"
  shows "tags_closed s \<Longrightarrow> \<not> sublist (CHR ''<'' # w) (re_sub (Lit CHR ''<'' # p) [] prev s)"
proof (induction s arbitrary: prev rule: length_induct)
  case (1 s)
  show ?case
  proof (cases s)
    case Nil
    then show ?thesis by simp
  next
    case (Cons x xs)
    with 1 have cxs: "tags_closed xs" by simp
    show ?thesis
    proof (cases "match_here (Lit CHR ''<'' # p) prev (x # xs)")
      case None
      let ?r = "re_sub (Lit CHR ''<'' # p) [] (Some x) xs"
      have r: "re_sub (Lit CHR ''<'' # p) [] prev s = x # ?r"
        using None Cons by simp
      have no: "\<not> sublist (CHR ''<'' # w) ?r"
        using 1 Cons cxs by simp
      have "\<not> prefix (CHR ''<'' # w) (x # ?r)"
      proof
        assume a: "prefix (CHR ''<'' # w) (x # ?r)"
        then have x: "x = CHR ''<''" and pw: "prefix w ?r" by auto
        from x 1 Cons have cl: "closes xs" by simp
        have "cut_tags xs ?r" by (rule re_sub_cut_tags [OF p])
        from cut_tags_prefix [OF this cl pw w] x
        have "prefix (CHR ''<'' # w) (x # xs)" by simp
        from complete [OF this] cl None show False by simp
      qed
      with no r show ?thesis by (simp add: sublist_Cons_right)
    next
      case (Some n)
      from tag_match [OF p Some] obtain k where n: "n = Suc (Suc k)" by blast
      have "tags_closed (drop (Suc k) xs)" using cxs by (rule tags_closed_drop)
      then have "\<not> sublist (CHR ''<'' # w)
          (re_sub (Lit CHR ''<'' # p) [] (Some (last (x # take (Suc k) xs))) (drop (Suc k) xs))"
        using 1 Cons by simp
      with Some n Cons show ?thesis by simp
    qed
  qed
qed

subsection \<open>The patterns for tags find every tag\<close>

lemma match_here_lits_complete:
  "prefix w s \<Longrightarrow> match_here (lits w) prev s = Some (length w)"
proof (induction w arbitrary: prev s)
  case Nil
  then show ?case by simp
next
  case (Cons a w)
  then show ?case by (cases s) auto
qed

lemma match_here_lits_None:
  "prefix w s \<Longrightarrow> match_here (lits w @ r) prev s = None
   \<Longrightarrow> \<exists>prev'. match_here r prev' (drop (length w) s) = None"
proof (induction w arbitrary: prev s)
  case Nil
  then show ?case by auto
next
  case (Cons a w)
  then show ?case by (cases s) (auto split: if_splits)
qed

lemma star_not_gt_None:
  "match_here [Star (NotChr CHR ''>'') Greedy, Lit CHR ''>''] prev s = None
   \<Longrightarrow> CHR ''>'' \<notin> set s"
  by (induction s arbitrary: prev) (auto split: if_splits option.splits)

lemma open_pat_complete:
  assumes c: "CHR ''<'' \<notin> set c" "CHR ''>'' \<notin> set c"
    and pre: "prefix (CHR ''<'' # c) t" and cl: "closes (tl t)"
  shows "match_here (open_pat c) prev t \<noteq> None"
proof
  assume n: "match_here (open_pat c) prev t = None"
  have "open_pat c = lits (CHR ''<'' # c) @ [Star (NotChr CHR ''>'') Greedy, Lit CHR ''>'']"
    by (simp add: open_pat_def)
  with n match_here_lits_None [OF pre] obtain prev'
    where "match_here [Star (NotChr CHR ''>'') Greedy, Lit CHR ''>''] prev'
             (drop (length (CHR ''<'' # c)) t) = None"
    by metis
  then have no: "CHR ''>'' \<notin> set (drop (length (CHR ''<'' # c)) t)"
    by (rule star_not_gt_None)
  from pre obtain u where t: "t = CHR ''<'' # c @ u" by (auto simp: prefix_def)
  with cl c have "closes u" by (simp add: closes_append_plain)
  then have "CHR ''>'' \<in> set u" by (rule closes_gt)
  with no t show False by simp
qed

lemma open_pat_shape:
  "open_pat c = Lit CHR ''<'' # (lits c @ [Star (NotChr CHR ''>'') Greedy, Lit CHR ''>''])"
  by (simp add: open_pat_def)

lemma close_pat_shape:
  "close_pat c = Lit CHR ''<'' # (lits (CHR ''/'' # c) @ [Lit CHR ''>''])"
  by (simp add: close_pat_def)

lemma paired_pat_shape:
  "paired_pat c = Lit CHR ''<'' # (lits c @ [Star (NotChr CHR ''>'') Greedy, Lit CHR ''>'',
     Star AnyChr Lazy] @ lits (''</'' @ c) @ [Lit CHR ''>''])"
  by (simp add: paired_pat_def)

lemma selfclosing_pat_shape:
  "selfclosing_pat c = Lit CHR ''<'' # (lits c @ [Star (NotChr CHR ''>'') Greedy, Lit CHR ''/'',
     Lit CHR ''>''])"
  by (simp add: selfclosing_pat_def)

lemma sub_open_eliminates:
  assumes "CHR ''<'' \<notin> set c" "CHR ''>'' \<notin> set c" "tags_closed s"
  shows "\<not> sublist (CHR ''<'' # c) (sub (open_pat c) [] s)"
  unfolding sub_def open_pat_shape
proof (rule re_sub_eliminates)
  fix prev t
  assume "prefix (CHR ''<'' # c) t" "closes (tl t)"
  from open_pat_complete [OF assms(1,2) this]
  show "match_here (Lit CHR ''<'' # lits c @ [Star (NotChr CHR ''>'') Greedy, Lit CHR ''>''])
          prev t \<noteq> None"
    by (simp add: open_pat_shape)
next
  show "CHR ''>'' \<notin> set (butlast c)" using assms(2) by (meson in_set_butlastD)
qed (use assms in simp_all)

lemma sub_close_eliminates:
  assumes "CHR ''<'' \<notin> set c" "CHR ''>'' \<notin> set c" "tags_closed s"
  shows "\<not> sublist (''</'' @ c @ ''>'') (sub (close_pat c) [] s)"
proof -
  have "\<not> sublist (CHR ''<'' # (CHR ''/'' # c @ ''>''))
          (re_sub (Lit CHR ''<'' # (lits (CHR ''/'' # c) @ [Lit CHR ''>''])) [] None s)"
  proof (rule re_sub_eliminates)
    fix prev t
    assume "prefix (CHR ''<'' # CHR ''/'' # c @ ''>'') t"
    then have "prefix (''</'' @ c @ ''>'') t" by simp
    from match_here_lits_complete [OF this]
    show "match_here (Lit CHR ''<'' # lits (CHR ''/'' # c) @ [Lit CHR ''>'']) prev t \<noteq> None"
      by simp
  next
    show "CHR ''>'' \<notin> set (butlast (CHR ''/'' # c @ ''>''))"
      using assms(2) by (simp add: butlast_append)
  qed (use assms in simp_all)
  then show ?thesis by (simp add: sub_def close_pat_shape)
qed

subsection \<open>The passes over the tags\<close>

lemma plain_brackets: "plain c \<Longrightarrow> CHR ''<'' \<notin> set c \<and> CHR ''>'' \<notin> set c"
  by (auto simp: plain_def list_all_iff)

lemma plain_nospace: "plain c \<Longrightarrow> list_all (\<lambda>x. \<not> isspace x) c"
  by (auto simp: plain_def list_all_iff)

lemma sub_paired_cut: "cut_tags s (sub (paired_pat c) [] s)"
  unfolding sub_def paired_pat_shape by (rule re_sub_cut_tags) simp_all

lemma sub_selfclosing_cut: "cut_tags s (sub (selfclosing_pat c) [] s)"
  unfolding sub_def selfclosing_pat_shape by (rule re_sub_cut_tags) simp_all

lemma sub_open_cut: "cut_tags s (sub (open_pat c) [] s)"
  unfolding sub_def open_pat_shape by (rule re_sub_cut_tags) simp_all

lemma sub_close_cut: "cut_tags s (sub (close_pat c) [] s)"
  unfolding sub_def close_pat_shape by (rule re_sub_cut_tags) simp_all

lemma fold_tags_closed:
  assumes "\<And>c s. tags_closed s \<Longrightarrow> tags_closed (f c s)"
  shows "tags_closed s \<Longrightarrow> tags_closed (fold f cs s)"
  by (induction cs arbitrary: s) (simp_all add: assms)

lemma remove_paired_closed: "tags_closed s \<Longrightarrow> tags_closed (remove_paired s)"
  unfolding remove_paired_def
  by (rule fold_tags_closed) (rule cut_tags_closed [OF sub_paired_cut])

lemma remove_selfclosing_closed: "tags_closed s \<Longrightarrow> tags_closed (remove_selfclosing s)"
  unfolding remove_selfclosing_def
  by (rule fold_tags_closed) (rule cut_tags_closed [OF sub_selfclosing_cut])

text \<open>No tag of a component: neither \<open><Name\<close> nor \<open></Name>\<close>.\<close>

lemma cut_tags_keeps_free:
  assumes "cut_tags s r" and "tags_closed s" and "plain d"
    and "\<not> sublist (''<'' @ d) s" and "\<not> sublist (''</'' @ d @ ''>'') s"
  shows "\<not> sublist (''<'' @ d) r \<and> \<not> sublist (''</'' @ d @ ''>'') r"
proof -
  from plain_brackets [OF assms(3)] have b: "CHR ''<'' \<notin> set d" "CHR ''>'' \<notin> set d"
    by simp_all
  have "\<not> sublist (CHR ''<'' # d) r"
    using cut_tags_sublist [OF assms(1,2), of d] b assms(4)
    by (auto dest: in_set_butlastD)
  moreover have "\<not> sublist (CHR ''<'' # (CHR ''/'' # d @ ''>'')) r"
    using cut_tags_sublist [OF assms(1,2), of "CHR ''/'' # d @ ''>''"] b assms(5)
    by (auto simp: butlast_append)
  ultimately show ?thesis by simp
qed

lemma bare_step:
  assumes "plain c" and "tags_closed s"
    and "\<forall>d\<in>D. plain d \<and> \<not> sublist (''<'' @ d) s \<and> \<not> sublist (''</'' @ d @ ''>'') s"
  shows "tags_closed (sub (close_pat c) [] (sub (open_pat c) [] s))
    \<and> (\<forall>d\<in>insert c D. plain d
          \<and> \<not> sublist (''<'' @ d) (sub (close_pat c) [] (sub (open_pat c) [] s))
          \<and> \<not> sublist (''</'' @ d @ ''>'') (sub (close_pat c) [] (sub (open_pat c) [] s)))"
proof -
  let ?s1 = "sub (open_pat c) [] s"
  let ?s2 = "sub (close_pat c) [] ?s1"
  from plain_brackets [OF assms(1)] have b: "CHR ''<'' \<notin> set c" "CHR ''>'' \<notin> set c"
    by simp_all
  have c1: "tags_closed ?s1" using sub_open_cut assms(2) by (rule cut_tags_closed)
  have c2: "tags_closed ?s2" using sub_close_cut c1 by (rule cut_tags_closed)
  have o1: "\<not> sublist (CHR ''<'' # c) ?s1" using b assms(2) by (rule sub_open_eliminates)
  have o2: "\<not> sublist (CHR ''<'' # c) ?s2"
    using cut_tags_sublist [OF sub_close_cut c1, of c c] b o1
    by (auto dest: in_set_butlastD)
  have e2: "\<not> sublist (''</'' @ c @ ''>'') ?s2" using b c1 by (rule sub_close_eliminates)
  have "\<not> sublist (''<'' @ d) ?s2 \<and> \<not> sublist (''</'' @ d @ ''>'') ?s2" if "d \<in> D" for d
  proof -
    from that assms(3) have d: "plain d" "\<not> sublist (''<'' @ d) s"
      "\<not> sublist (''</'' @ d @ ''>'') s" by auto
    from cut_tags_keeps_free [OF sub_open_cut assms(2) d]
    have "\<not> sublist (''<'' @ d) ?s1" "\<not> sublist (''</'' @ d @ ''>'') ?s1" by simp_all
    from cut_tags_keeps_free [OF sub_close_cut c1 d(1) this] show ?thesis .
  qed
  with c2 o2 e2 assms(1,3) show ?thesis by auto
qed

lemma bare_fold:
  assumes "\<forall>c\<in>set cs. plain c" and "tags_closed s"
    and "\<forall>d\<in>D. plain d \<and> \<not> sublist (''<'' @ d) s \<and> \<not> sublist (''</'' @ d @ ''>'') s"
  shows "tags_closed (fold (\<lambda>c t. sub (close_pat c) [] (sub (open_pat c) [] t)) cs s)
    \<and> (\<forall>d\<in>D \<union> set cs.
          \<not> sublist (''<'' @ d) (fold (\<lambda>c t. sub (close_pat c) [] (sub (open_pat c) [] t)) cs s)
          \<and> \<not> sublist (''</'' @ d @ ''>'')
               (fold (\<lambda>c t. sub (close_pat c) [] (sub (open_pat c) [] t)) cs s))"
  using assms
proof (induction cs arbitrary: s D)
  case Nil
  then show ?case by simp
next
  case (Cons c cs)
  from Cons.prems(1) have pc: "plain c" and pcs: "\<forall>c\<in>set cs. plain c" by simp_all
  from bare_step [OF pc Cons.prems(2,3)]
  have "tags_closed (sub (close_pat c) [] (sub (open_pat c) [] s))"
    and "\<forall>d\<in>insert c D. plain d
          \<and> \<not> sublist (''<'' @ d) (sub (close_pat c) [] (sub (open_pat c) [] s))
          \<and> \<not> sublist (''</'' @ d @ ''>'') (sub (close_pat c) [] (sub (open_pat c) [] s))"
    by simp_all
  from Cons.IH [OF pcs this] show ?case by simp
qed

lemma components_plain: "\<forall>c\<in>set components. plain c"
  unfolding list_all_iff [symmetric] by code_simp

lemma remove_bare_free:
  assumes "tags_closed s" and "c \<in> set components"
  shows "\<not> sublist (''<'' @ c) (remove_bare s) \<and> \<not> sublist (''</'' @ c @ ''>'') (remove_bare s)"
  using bare_fold [OF components_plain assms(1), of "{}"] assms(2)
  by (simp add: remove_bare_def)

subsection \<open>The passes over the whitespace\<close>

lemma isspace_newline [simp]: "isspace newline"
  by (simp add: isspace_def newline_def)

lemma respaced_prefix:
  "respaced s r \<Longrightarrow> prefix w r \<Longrightarrow> list_all (\<lambda>c. \<not> isspace c) w \<Longrightarrow> prefix w s"
proof (induction arbitrary: w rule: respaced.induct)
  case resp_Nil
  then show ?case by simp
next
  case (resp_keep s r x)
  then show ?case by (cases w) auto
next
  case (resp_cut s r m t)
  show ?case
  proof (cases w)
    case Nil
    then show ?thesis by simp
  next
    case (Cons y w')
    with resp_cut.prems have y: "\<not> isspace y" and p: "prefix (y # w') (t @ r)" by simp_all
    show ?thesis
    proof (cases t)
      case Nil
      with p obtain r' where r: "r = y # r'" by (cases r) auto
      with resp_cut.hyps Nil y show ?thesis by auto
    next
      case (Cons a t')
      with p resp_cut.hyps y show ?thesis by auto
    qed
  qed
qed

lemma sublist_skip_spaces:
  "list_all isspace t \<Longrightarrow> list_all (\<lambda>c. \<not> isspace c) w \<Longrightarrow> w \<noteq> [] \<Longrightarrow> sublist w (t @ r)
   \<Longrightarrow> sublist w r"
proof (induction t)
  case Nil
  then show ?case by simp
next
  case (Cons a t)
  from Cons.prems have "\<not> prefix w (a # t @ r)" by (cases w) auto
  with Cons show ?case by (simp add: sublist_Cons_right)
qed

lemma respaced_sublist:
  "respaced s r \<Longrightarrow> sublist w r \<Longrightarrow> w \<noteq> [] \<Longrightarrow> list_all (\<lambda>c. \<not> isspace c) w \<Longrightarrow> sublist w s"
proof (induction rule: respaced.induct)
  case resp_Nil
  then show ?case by simp
next
  case (resp_keep s r x)
  from resp_keep.prems(1) consider "prefix w (x # r)" | "sublist w r"
    by (auto simp: sublist_Cons_right)
  then show ?case
  proof cases
    case 1
    have "respaced (x # s) (x # r)" using resp_keep.hyps by (rule respaced.resp_keep)
    from respaced_prefix [OF this 1 resp_keep.prems(3)] show ?thesis
      by (rule prefix_imp_sublist)
  next
    case 2
    with resp_keep show ?thesis by (simp add: sublist_Cons_right)
  qed
next
  case (resp_cut s r m t)
  from sublist_skip_spaces [OF resp_cut.hyps(3) resp_cut.prems(3,2,1)]
  have "sublist w r" .
  with resp_cut have "sublist w s" by simp
  then show ?case by (rule sublist_suffix)
qed

lemma re_sub_respaced:
  assumes "list_all space_atom pat" and "list_all isspace t" and "t \<noteq> []"
  shows "respaced s (re_sub pat t prev s)"
proof (induction s arbitrary: prev rule: length_induct)
  case (1 s)
  show ?case
  proof (cases s)
    case Nil
    then show ?thesis by (simp add: resp_Nil)
  next
    case (Cons x xs)
    show ?thesis
    proof (cases "match_here pat prev (x # xs)")
      case None
      with Cons 1 show ?thesis by (simp add: resp_keep)
    next
      case (Some n)
      show ?thesis
      proof (cases n)
        case 0
        with Some Cons 1 show ?thesis by (simp add: resp_keep)
      next
        case (Suc k)
        let ?r = "re_sub pat t (Some (last (x # take k xs))) (drop k xs)"
        from match_here_spaces [OF assms(1) Some] Suc
        have sp: "list_all isspace (x # take k xs)" by simp
        have "respaced (drop k xs) ?r" using 1 Cons by simp
        from resp_cut [OF this sp assms(2)] assms(3)
        have "respaced ((x # take k xs) @ drop k xs) (t @ ?r)" by simp
        with Cons Some Suc show ?thesis by simp
      qed
    qed
  qed
qed

lemma star_eol_rest:
  "match_here [Star Space Greedy, Eol] prev s = Some n
   \<Longrightarrow> drop n s = [] \<or> take 1 (drop n s) = [newline]"
proof (induction s arbitrary: prev n)
  case Nil
  then show ?case by simp
next
  case (Cons x xs)
  show ?case
  proof (cases "isspace x")
    case True
    show ?thesis
    proof (cases "match_here [Star Space Greedy, Eol] (Some x) xs")
      case None
      with Cons.prems True show ?thesis by (auto split: if_splits)
    next
      case (Some k)
      with Cons.prems True have "n = Suc k" by simp
      with Cons.IH [OF Some] show ?thesis by simp
    qed
  next
    case False
    with Cons.prems show ?thesis by (auto split: if_splits)
  qed
qed

lemma space_line_rest:
  assumes "match_here space_line_pat prev (x # xs) = Some n"
  shows "\<exists>k. n = Suc k \<and> (drop k xs = [] \<or> take 1 (drop k xs) = [newline])"
proof -
  from assms obtain k where n: "n = Suc k"
    and m: "match_here [Star Space Greedy, Eol] (Some x) xs = Some k"
    by (auto simp: space_line_pat_def split: if_splits)
  from star_eol_rest [OF m] n show ?thesis by simp
qed

lemma re_sub_space_line_head:
  "s = [] \<or> take 1 s = [newline]
   \<Longrightarrow> re_sub space_line_pat [] prev s = [] \<or> isspace (hd (re_sub space_line_pat [] prev s))"
proof (induction s arbitrary: prev rule: length_induct)
  case (1 s)
  show ?case
  proof (cases s)
    case Nil
    then show ?thesis by simp
  next
    case (Cons x xs)
    with 1(2) have x: "x = newline" by simp
    show ?thesis
    proof (cases "match_here space_line_pat prev (x # xs)")
      case None
      with Cons x show ?thesis by simp
    next
      case (Some n)
      from space_line_rest [OF Some] obtain k where n: "n = Suc k"
        and d: "drop k xs = [] \<or> take 1 (drop k xs) = [newline]" by blast
      have "length (drop k xs) < length s" using Cons by simp
      with 1(1) d
      have "re_sub space_line_pat [] (Some (last (x # take k xs))) (drop k xs) = []
        \<or> isspace (hd (re_sub space_line_pat [] (Some (last (x # take k xs))) (drop k xs)))"
        by blast
      with Cons Some n show ?thesis by (simp del: last.simps)
    qed
  qed
qed

lemma re_sub_space_line_respaced: "respaced s (re_sub space_line_pat [] prev s)"
proof (induction s arbitrary: prev rule: length_induct)
  case (1 s)
  show ?case
  proof (cases s)
    case Nil
    then show ?thesis by (simp add: resp_Nil)
  next
    case (Cons x xs)
    show ?thesis
    proof (cases "match_here space_line_pat prev (x # xs)")
      case None
      with Cons 1 show ?thesis by (simp add: resp_keep)
    next
      case (Some n)
      from space_line_rest [OF Some] obtain k where n: "n = Suc k"
        and d: "drop k xs = [] \<or> take 1 (drop k xs) = [newline]" by blast
      let ?r = "re_sub space_line_pat [] (Some (last (x # take k xs))) (drop k xs)"
      have "list_all space_atom space_line_pat" by (simp add: space_line_pat_def)
      from match_here_spaces [OF this Some] n
      have sp: "list_all isspace (x # take k xs)" by simp
      have r: "respaced (drop k xs) ?r" using 1 Cons by simp
      have h: "[] \<noteq> ([]::string) \<or> ?r = [] \<or> isspace (hd ?r)"
        using re_sub_space_line_head [OF d] by simp
      have "list_all isspace ([]::string)" by simp
      from resp_cut [OF r sp this h]
      have "respaced ((x # take k xs) @ drop k xs) ?r" by simp
      with Cons Some n show ?thesis by simp
    qed
  qed
qed

lemma clean_whitespace_sublist:
  assumes "sublist w (clean_whitespace s)" and "w \<noteq> []" and "list_all (\<lambda>c. \<not> isspace c) w"
  shows "sublist w s"
proof -
  let ?a = "sub blank_lines_pat [newline, newline] s"
  let ?b = "sub space_line_pat [] ?a"
  have "respaced ?b (sub trailing_space_pat [newline] ?b)"
    unfolding sub_def by (rule re_sub_respaced) (simp_all add: trailing_space_pat_def)
  from respaced_sublist [OF this _ assms(2,3)] assms(1)
  have "sublist w ?b" by (simp add: clean_whitespace_def)
  moreover have "respaced ?a ?b" unfolding sub_def by (rule re_sub_space_line_respaced)
  ultimately have "sublist w ?a" using assms(2,3) by (metis respaced_sublist)
  moreover have "respaced s ?a"
    unfolding sub_def by (rule re_sub_respaced) (simp_all add: blank_lines_pat_def)
  ultimately show ?thesis using assms(2,3) by (metis respaced_sublist)
qed

lemma sublist_strip_chars: "sublist (strip_chars p s) s"
proof -
  have "sublist (dropWhile p (rev (dropWhile p s))) (rev (dropWhile p s))" by simp
  then have "sublist (strip_chars p s) (dropWhile p s)"
    by (simp add: strip_chars_def sublist_rev_left)
  moreover have "sublist (dropWhile p s) s" by simp
  ultimately show ?thesis by (rule sublist_order.order.trans)
qed

lemma sublist_strip: "sublist w (strip s) \<Longrightarrow> sublist w s"
  unfolding strip_def using sublist_strip_chars sublist_order.order.trans by blast

subsection \<open>No tag of a component is left\<close>

lemma stripper_eliminates:
  assumes "tags_closed (remove_comments content)" and "c \<in> set components"
  shows "\<not> sublist (''<'' @ c) (process_mdx_content content)
    \<and> \<not> sublist (''</'' @ c @ ''>'') (process_mdx_content content)"
proof -
  let ?t = "remove_bare (remove_selfclosing (remove_paired (remove_comments content)))"
  have "tags_closed (remove_selfclosing (remove_paired (remove_comments content)))"
    using assms(1) by (intro remove_selfclosing_closed remove_paired_closed)
  from remove_bare_free [OF this assms(2)]
  have f: "\<not> sublist (''<'' @ c) ?t" "\<not> sublist (''</'' @ c @ ''>'') ?t" by simp_all
  from components_plain assms(2) have "plain c" by simp
  then have n: "list_all (\<lambda>x. \<not> isspace x) c" by (rule plain_nospace)
  have lt: "\<not> isspace CHR ''<''" "\<not> isspace CHR ''/''" "\<not> isspace CHR ''>''"
    by (simp_all add: isspace_def)
  have "\<not> sublist (''<'' @ c) (strip (clean_whitespace ?t))"
  proof
    assume "sublist (''<'' @ c) (strip (clean_whitespace ?t))"
    then have "sublist (''<'' @ c) (clean_whitespace ?t)" by (rule sublist_strip)
    then have "sublist (''<'' @ c) ?t"
      by (rule clean_whitespace_sublist) (use n lt in simp_all)
    with f show False by simp
  qed
  moreover have "\<not> sublist (''</'' @ c @ ''>'') (strip (clean_whitespace ?t))"
  proof
    assume "sublist (''</'' @ c @ ''>'') (strip (clean_whitespace ?t))"
    then have "sublist (''</'' @ c @ ''>'') (clean_whitespace ?t)" by (rule sublist_strip)
    then have "sublist (''</'' @ c @ ''>'') ?t"
      by (rule clean_whitespace_sublist) (use n lt in simp_all)
    with f show False by simp
  qed
  ultimately show ?thesis by (simp add: process_mdx_content_def)
qed

subsection \<open>A substitution without a match changes nothing\<close>

lemma re_sub_id:
  assumes "\<And>prev t. suffix t s \<Longrightarrow> match_here pat prev t = None"
  shows "re_sub pat repl prev s = s"
  using assms
proof (induction s arbitrary: prev)
  case Nil
  then show ?case by simp
next
  case (Cons x xs)
  have "match_here pat prev (x # xs) = None" by (rule Cons.prems) simp
  moreover have "re_sub pat repl (Some x) xs = xs"
    by (rule Cons.IH) (rule Cons.prems, simp add: suffix_Cons)
  ultimately show ?case by simp
qed

lemma sub_lits_id:
  assumes "\<not> sublist w s"
  shows "sub (lits w @ r) repl s = s"
  unfolding sub_def
proof (rule re_sub_id)
  fix prev t
  assume t: "suffix t s"
  show "match_here (lits w @ r) prev t = None"
  proof (cases "match_here (lits w @ r) prev t")
    case None
    then show ?thesis .
  next
    case (Some n)
    then have "prefix w t" by (rule match_here_lits_prefix)
    then have "sublist w t" by (rule prefix_imp_sublist)
    moreover from t have "sublist t s" by (rule suffix_imp_sublist)
    ultimately have "sublist w s" by (rule sublist_order.order.trans)
    with assms show ?thesis by simp
  qed
qed

lemma fold_id: "(\<And>c. c \<in> set cs \<Longrightarrow> f c s = s) \<Longrightarrow> fold f cs s = s"
  by (induction cs) simp_all

lemma no_component_tag:
  "\<not> has_component_tag s \<Longrightarrow> c \<in> set components
   \<Longrightarrow> \<not> sublist (''<'' @ c) s \<and> \<not> sublist (''</'' @ c @ ''>'') s"
  by (auto simp: has_component_tag_def list_ex_iff)

lemma remove_comments_id: "\<not> sublist ''{/*'' s \<Longrightarrow> remove_comments s = s"
  unfolding remove_comments_def comment_pat_def by (rule sub_lits_id)

lemma remove_paired_id: "\<not> has_component_tag s \<Longrightarrow> remove_paired s = s"
proof -
  assume a: "\<not> has_component_tag s"
  have "sub (paired_pat c) [] s = s" if "c \<in> set components" for c
  proof -
    from no_component_tag [OF a that] have "\<not> sublist (''<'' @ c) s" by simp
    then show ?thesis unfolding paired_pat_def by (rule sub_lits_id)
  qed
  then show ?thesis unfolding remove_paired_def by (rule fold_id)
qed

lemma remove_selfclosing_id: "\<not> has_component_tag s \<Longrightarrow> remove_selfclosing s = s"
proof -
  assume a: "\<not> has_component_tag s"
  have "sub (selfclosing_pat c) [] s = s" if "c \<in> set components" for c
  proof -
    from no_component_tag [OF a that] have "\<not> sublist (''<'' @ c) s" by simp
    then show ?thesis unfolding selfclosing_pat_def by (rule sub_lits_id)
  qed
  then show ?thesis unfolding remove_selfclosing_def by (rule fold_id)
qed

lemma remove_bare_id: "\<not> has_component_tag s \<Longrightarrow> remove_bare s = s"
proof -
  assume a: "\<not> has_component_tag s"
  have "sub (close_pat c) [] (sub (open_pat c) [] s) = s" if "c \<in> set components" for c
  proof -
    from no_component_tag [OF a that]
    have o: "\<not> sublist (''<'' @ c) s" and c: "\<not> sublist (''</'' @ c @ ''>'') s" by simp_all
    from o have "sub (open_pat c) [] s = s"
      unfolding open_pat_def by (rule sub_lits_id)
    moreover from c have "sub (lits (''</'' @ c @ ''>'') @ []) [] s = s"
      by (rule sub_lits_id)
    ultimately show ?thesis by (simp add: close_pat_def)
  qed
  then show ?thesis unfolding remove_bare_def by (rule fold_id)
qed

subsection \<open>Whitespace that is already clean\<close>

lemma sbn_Cons:
  "space_before_newline (x # r) =
     ((r \<noteq> [] \<and> isspace x \<and> hd r = newline) \<or> space_before_newline r)"
  by (cases r) auto

lemma sbn_iff: "space_before_newline s \<longleftrightarrow> (\<exists>a. isspace a \<and> sublist [a, newline] s)"
proof (induction s)
  case Nil
  then show ?case by simp
next
  case (Cons x s)
  show ?case
    by (cases s) (use Cons in \<open>auto simp: sbn_Cons sublist_Cons_right\<close>)
qed

lemma sbn_sublist: "sublist t s \<Longrightarrow> space_before_newline t \<Longrightarrow> space_before_newline s"
  unfolding sbn_iff using sublist_order.order.trans by blast

lemma star_space_newline:
  "match_here (Star Space Greedy # Lit newline # r) prev t = Some n \<Longrightarrow> isspace p
   \<Longrightarrow> space_before_newline (p # t)"
proof (induction t arbitrary: prev p n)
  case Nil
  then show ?case by simp
next
  case (Cons x xs)
  show ?case
  proof (cases "isspace x")
    case True
    show ?thesis
    proof (cases "match_here (Star Space Greedy # Lit newline # r) (Some x) xs")
      case None
      with Cons.prems True show ?thesis by (auto split: if_splits)
    next
      case (Some k)
      from Cons.IH [OF Some True] show ?thesis by simp
    qed
  next
    case False
    with Cons.prems show ?thesis by (auto split: if_splits)
  qed
qed

lemma blank_lines_match:
  assumes "match_here blank_lines_pat prev t = Some n"
  shows "space_before_newline t"
proof (cases t)
  case Nil
  with assms show ?thesis by (simp add: blank_lines_pat_def)
next
  case (Cons x xs)
  with assms obtain k where x: "x = newline"
    and m: "match_here (Star Space Greedy # Lit newline # [Star Space Greedy, Lit newline])
              (Some x) xs = Some k"
    by (auto simp: blank_lines_pat_def split: if_splits)
  from star_space_newline [OF m, of x] x Cons show ?thesis by simp
qed

lemma trailing_space_match:
  assumes "match_here trailing_space_pat prev t = Some n"
  shows "space_before_newline t"
proof (cases t)
  case Nil
  with assms show ?thesis by (simp add: trailing_space_pat_def)
next
  case (Cons x xs)
  with assms obtain k where x: "isspace x"
    and m: "match_here (Star Space Greedy # Lit newline # []) (Some x) xs = Some k"
    by (auto simp: trailing_space_pat_def split: if_splits)
  from star_space_newline [OF m x] Cons show ?thesis by simp
qed

lemma sub_blank_lines_id:
  assumes "\<not> space_before_newline s"
  shows "sub blank_lines_pat repl s = s"
  unfolding sub_def
proof (rule re_sub_id)
  fix prev t
  assume "suffix t s"
  then have "sublist t s" by (rule suffix_imp_sublist)
  with assms have "\<not> space_before_newline t" using sbn_sublist by blast
  then show "match_here blank_lines_pat prev t = None"
    using blank_lines_match by (cases "match_here blank_lines_pat prev t") auto
qed

lemma sub_trailing_space_id:
  assumes "\<not> space_before_newline s"
  shows "sub trailing_space_pat repl s = s"
  unfolding sub_def
proof (rule re_sub_id)
  fix prev t
  assume "suffix t s"
  then have "sublist t s" by (rule suffix_imp_sublist)
  with assms have "\<not> space_before_newline t" using sbn_sublist by blast
  then show "match_here trailing_space_pat prev t = None"
    using trailing_space_match by (cases "match_here trailing_space_pat prev t") auto
qed

lemma re_sub_space_line_clean:
  "\<not> space_before_newline s
   \<Longrightarrow> \<exists>u. s = re_sub space_line_pat [] prev s @ u \<and> list_all isspace u"
proof (induction s arbitrary: prev rule: length_induct)
  case (1 s)
  show ?case
  proof (cases s)
    case Nil
    then show ?thesis by simp
  next
    case (Cons x xs)
    from 1(2) Cons have nxs: "\<not> space_before_newline xs" by (simp add: sbn_Cons)
    show ?thesis
    proof (cases "match_here space_line_pat prev (x # xs)")
      case None
      from 1(1) Cons nxs obtain u where "xs = re_sub space_line_pat [] (Some x) xs @ u"
        and "list_all isspace u" by fastforce
      with None Cons show ?thesis by auto
    next
      case (Some n)
      from space_line_rest [OF Some] obtain k where n: "n = Suc k"
        and d: "drop k xs = [] \<or> take 1 (drop k xs) = [newline]" by blast
      have "list_all space_atom space_line_pat" by (simp add: space_line_pat_def)
      from match_here_spaces [OF this Some] n
      have sp: "list_all isspace (x # take k xs)" by simp
      have "drop k xs = []"
      proof (rule ccontr)
        assume ne: "drop k xs \<noteq> []"
        with d obtain rest where r: "drop k xs = newline # rest"
          by (cases "drop k xs") auto
        obtain b l where bl: "x # take k xs = b @ [l]"
          by (metis append_butlast_last_id list.distinct(1))
        from sp have "list_all isspace (b @ [l])" unfolding bl .
        then have l: "isspace l" by simp
        have "s = (x # take k xs) @ drop k xs" using Cons by simp
        then have "s = b @ [l, newline] @ rest" unfolding bl r by simp
        then have "sublist [l, newline] s"
          by (metis sublist_appendI)
        with l have "space_before_newline s" unfolding sbn_iff by blast
        with 1(2) show False by simp
      qed
      with Some n Cons sp have "re_sub space_line_pat [] prev s = []"
        and "list_all isspace s"
        by (simp_all del: last.simps)
      then show ?thesis by simp
    qed
  qed
qed

lemma strip_chars_append_spaces:
  assumes "list_all p u"
  shows "strip_chars p (r @ u) = strip_chars p r"
proof (cases "list_all p r")
  case True
  with assms have a: "dropWhile p (r @ u) = []" and b: "dropWhile p r = []"
    by (simp_all add: list_all_iff dropWhile_eq_Nil_conv)
  show ?thesis unfolding strip_chars_def a b by (rule refl)
next
  case False
  then obtain x where "x \<in> set r" "\<not> p x" by (auto simp: list_all_iff)
  then have d: "dropWhile p (r @ u) = dropWhile p r @ u"
    by (simp add: dropWhile_append1)
  have "dropWhile p (rev u @ rev (dropWhile p r)) = dropWhile p (rev (dropWhile p r))"
    by (rule dropWhile_append2) (use assms in \<open>simp add: list_all_iff\<close>)
  with d show ?thesis by (simp add: strip_chars_def)
qed

lemma clean_whitespace_clean:
  assumes "\<not> space_before_newline s"
  shows "strip (clean_whitespace s) = strip s"
proof -
  let ?b = "sub space_line_pat [] s"
  from re_sub_space_line_clean [OF assms, of None]
  obtain u where u: "s = ?b @ u" "list_all isspace u" by (auto simp: sub_def)
  then have "sublist ?b s" by (metis sublist_append_rightI)
  with assms have "\<not> space_before_newline ?b" using sbn_sublist by blast
  then have "sub trailing_space_pat [newline] ?b = ?b" by (rule sub_trailing_space_id)
  with assms have "clean_whitespace s = ?b"
    by (simp add: clean_whitespace_def sub_blank_lines_id)
  moreover have "strip s = strip ?b"
    using strip_chars_append_spaces [OF u(2), of ?b] u(1) by (simp add: strip_def)
  ultimately show ?thesis by simp
qed

lemma stripper_passthrough:
  assumes "\<not> sublist ''{/*'' content" and "\<not> has_component_tag content"
    and "\<not> space_before_newline content"
  shows "process_mdx_content content = strip content"
  using assms
  by (simp add: process_mdx_content_def remove_comments_id remove_paired_id
      remove_selfclosing_id remove_bare_id clean_whitespace_clean)

subsection \<open>The output of the whitespace passes is clean\<close>

lemma star_newline_sound:
  "match_here [Star Space Greedy, Lit newline] prev s = Some n
   \<Longrightarrow> newline \<in> set (takeWhile isspace s)"
proof (induction s arbitrary: prev n)
  case Nil
  then show ?case by simp
next
  case (Cons x xs)
  show ?case
  proof (cases "isspace x")
    case True
    show ?thesis
    proof (cases "match_here [Star Space Greedy, Lit newline] (Some x) xs")
      case None
      with Cons.prems True show ?thesis by (auto split: if_splits)
    next
      case (Some k)
      from Cons.IH [OF Some] True show ?thesis by simp
    qed
  next
    case False
    with Cons.prems show ?thesis by (auto split: if_splits)
  qed
qed

lemma star_newline_complete:
  "newline \<in> set (takeWhile isspace s)
   \<Longrightarrow> match_here [Star Space Greedy, Lit newline] prev s \<noteq> None"
proof (induction s arbitrary: prev)
  case Nil
  then show ?case by simp
next
  case (Cons x xs)
  from Cons.prems have x: "isspace x" by (auto split: if_splits)
  show ?case
  proof (cases "match_here [Star Space Greedy, Lit newline] (Some x) xs")
    case None
    with Cons.IH have "newline \<notin> set (takeWhile isspace xs)" by blast
    with Cons.prems x have "x = newline" by simp
    with None x show ?thesis by simp
  next
    case (Some k)
    with x show ?thesis by simp
  qed
qed

lemma star_newline_greedy:
  "match_here [Star Space Greedy, Lit newline] prev s = Some n
   \<Longrightarrow> newline \<notin> set (takeWhile isspace (drop n s))"
proof (induction s arbitrary: prev n)
  case Nil
  then show ?case by simp
next
  case (Cons x xs)
  show ?case
  proof (cases "isspace x")
    case True
    show ?thesis
    proof (cases "match_here [Star Space Greedy, Lit newline] (Some x) xs")
      case None
      with Cons.prems True have n: "n = 1" by (auto split: if_splits)
      from None star_newline_complete have "newline \<notin> set (takeWhile isspace xs)"
        by blast
      with n show ?thesis by simp
    next
      case (Some k)
      with Cons.prems True have "n = Suc k" by simp
      with Cons.IH [OF Some] show ?thesis by simp
    qed
  next
    case False
    with Cons.prems show ?thesis by (auto split: if_splits)
  qed
qed

lemma trailing_space_Cons:
  "match_here trailing_space_pat prev (x # xs) =
     (if isspace x then map_option Suc (match_here [Star Space Greedy, Lit newline] (Some x) xs)
      else None)"
  by (simp add: trailing_space_pat_def)

lemma re_sub_trailing_head:
  assumes "newline \<notin> set (takeWhile isspace t)"
  shows "re_sub trailing_space_pat [newline] prev t = []
    \<or> hd (re_sub trailing_space_pat [newline] prev t) \<noteq> newline"
proof (cases t)
  case Nil
  then show ?thesis by simp
next
  case (Cons y ys)
  have none: "match_here trailing_space_pat prev (y # ys) = None"
  proof (cases "isspace y")
    case True
    with assms Cons have "newline \<notin> set (takeWhile isspace ys)" by simp
    with star_newline_sound have "match_here [Star Space Greedy, Lit newline] (Some y) ys = None"
      by (cases "match_here [Star Space Greedy, Lit newline] (Some y) ys") blast+
    with True show ?thesis by (simp add: trailing_space_Cons)
  next
    case False
    then show ?thesis by (simp add: trailing_space_Cons)
  qed
  have "y \<noteq> newline" using assms Cons by (cases "isspace y") auto
  with none Cons show ?thesis by simp
qed

lemma re_sub_trailing_clean:
  "\<not> space_before_newline (re_sub trailing_space_pat [newline] prev s)"
proof (induction s arbitrary: prev rule: length_induct)
  case (1 s)
  show ?case
  proof (cases s)
    case Nil
    then show ?thesis by simp
  next
    case (Cons x xs)
    show ?thesis
    proof (cases "match_here trailing_space_pat prev (x # xs)")
      case None
      let ?r = "re_sub trailing_space_pat [newline] (Some x) xs"
      have r: "re_sub trailing_space_pat [newline] prev s = x # ?r"
        using None Cons by simp
      have c: "\<not> space_before_newline ?r" using 1 Cons by simp
      have "\<not> (?r \<noteq> [] \<and> isspace x \<and> hd ?r = newline)"
      proof (cases "isspace x")
        case True
        with None have "match_here [Star Space Greedy, Lit newline] (Some x) xs = None"
          by (simp add: trailing_space_Cons)
        with star_newline_complete have "newline \<notin> set (takeWhile isspace xs)"
          by blast
        from re_sub_trailing_head [OF this] show ?thesis by blast
      next
        case False
        then show ?thesis by simp
      qed
      with c r show ?thesis by (simp add: sbn_Cons)
    next
      case (Some n)
      then obtain k where n: "n = Suc k" and x: "isspace x"
        and m: "match_here [Star Space Greedy, Lit newline] (Some x) xs = Some k"
        by (auto simp: trailing_space_Cons split: if_splits)
      let ?r = "re_sub trailing_space_pat [newline] (Some (last (x # take k xs))) (drop k xs)"
      have r: "re_sub trailing_space_pat [newline] prev s = newline # ?r"
        using Some n Cons by (simp del: last.simps)
      have "length (drop k xs) < length s" using Cons by simp
      with 1 have c: "\<not> space_before_newline ?r" by blast
      from star_newline_greedy [OF m] have "newline \<notin> set (takeWhile isspace (drop k xs))" .
      from re_sub_trailing_head [OF this] have "?r = [] \<or> hd ?r \<noteq> newline" .
      with c r show ?thesis by (auto simp: sbn_Cons)
    qed
  qed
qed

lemma strip_clean: "\<not> space_before_newline s \<Longrightarrow> \<not> space_before_newline (strip s)"
  using sbn_sublist [of "strip s" s] sublist_strip_chars [of isspace s]
  by (auto simp: strip_def)

lemma process_mdx_content_clean: "\<not> space_before_newline (process_mdx_content content)"
  unfolding process_mdx_content_def clean_whitespace_def sub_def
  by (rule strip_clean) (rule re_sub_trailing_clean)

subsection \<open>Stripping twice\<close>

lemma dropWhile_rev_prefix: "\<exists>v. t = rev (dropWhile p (rev t)) @ v"
  by (metis rev_append rev_rev_ident takeWhile_dropWhile_id)

lemma strip_chars_idem: "strip_chars p (strip_chars p s) = strip_chars p s"
proof -
  define t where "t = dropWhile p s"
  define u where "u = rev (dropWhile p (rev t))"
  have su: "strip_chars p s = u" by (simp add: strip_chars_def u_def t_def)
  from dropWhile_rev_prefix [of t p] obtain v where tv: "t = u @ v"
    unfolding u_def by blast
  have "dropWhile p u = u"
  proof (cases u)
    case Nil
    then show ?thesis by simp
  next
    case (Cons a u')
    with tv have "dropWhile p s = a # u' @ v" by (simp add: t_def)
    then have "\<not> p a" by (metis hd_dropWhile list.distinct(1) list.sel(1))
    with Cons show ?thesis by simp
  qed
  moreover have "dropWhile p (rev u) = rev u" by (simp add: u_def)
  ultimately have "strip_chars p u = u" by (simp add: strip_chars_def)
  with su show ?thesis by simp
qed

lemma strip_idem: "strip (strip s) = strip s"
  by (simp add: strip_def strip_chars_idem)

subsection \<open>The characters of the output\<close>

lemma set_re_sub: "set (re_sub pat repl prev s) \<subseteq> set s \<union> set repl"
proof (induction s arbitrary: prev rule: length_induct)
  case (1 s)
  show ?case
  proof (cases s)
    case Nil
    then show ?thesis by simp
  next
    case (Cons x xs)
    have a: "set (re_sub pat repl (Some x) xs) \<subseteq> set xs \<union> set repl"
      using 1 Cons by simp
    have b: "set (re_sub pat repl p' (drop k xs)) \<subseteq> set xs \<union> set repl" for k p'
    proof -
      have "length (drop k xs) < length s" using Cons by simp
      with 1 have "set (re_sub pat repl p' (drop k xs)) \<subseteq> set (drop k xs) \<union> set repl"
        by blast
      moreover have "set (drop k xs) \<subseteq> set xs" by (rule set_drop_subset)
      ultimately show ?thesis by blast
    qed
    show ?thesis
    proof (cases "match_here pat prev (x # xs)")
      case None
      with a Cons show ?thesis by auto
    next
      case (Some n)
      show ?thesis
      proof (cases n)
        case 0
        with Some a Cons show ?thesis by auto
      next
        case (Suc k)
        with Some Cons b [of "Some (last (x # take k xs))" k] show ?thesis
          by (auto simp del: last.simps)
      qed
    qed
  qed
qed

lemma set_sub: "c \<notin> set s \<Longrightarrow> c \<notin> set repl \<Longrightarrow> c \<notin> set (sub pat repl s)"
  using set_re_sub [of pat repl None s] by (auto simp: sub_def)

lemma set_fold: "(\<And>d t. c \<notin> set t \<Longrightarrow> c \<notin> set (f d t)) \<Longrightarrow> c \<notin> set s \<Longrightarrow> c \<notin> set (fold f cs s)"
  by (induction cs arbitrary: s) simp_all

lemma set_process_mdx_content:
  assumes "c \<notin> set content" and "c \<noteq> newline"
  shows "c \<notin> set (process_mdx_content content)"
proof -
  have 1: "c \<notin> set (remove_comments content)"
    unfolding remove_comments_def using assms(1) by (simp add: set_sub)
  have 2: "c \<notin> set (remove_paired (remove_comments content))"
    unfolding remove_paired_def using 1 by (intro set_fold set_sub) simp_all
  have 3: "c \<notin> set (remove_selfclosing (remove_paired (remove_comments content)))"
    unfolding remove_selfclosing_def using 2 by (intro set_fold set_sub) simp_all
  have 4: "c \<notin> set (remove_bare (remove_selfclosing (remove_paired (remove_comments content))))"
    unfolding remove_bare_def using 3 by (intro set_fold set_sub) simp_all
  have 5: "c \<notin> set (clean_whitespace
      (remove_bare (remove_selfclosing (remove_paired (remove_comments content)))))"
    unfolding clean_whitespace_def using 4 assms(2) by (intro set_sub) simp_all
  have "set (strip t) \<subseteq> set t" for t
    unfolding strip_def by (rule set_mono_sublist) (rule sublist_strip_chars)
  with 5 show ?thesis unfolding process_mdx_content_def by blast
qed

lemma stripper_idempotent:
  assumes "tags_closed content" and "CHR ''{'' \<notin> set content"
  shows "process_mdx_content (process_mdx_content content) = process_mdx_content content"
proof -
  let ?y = "process_mdx_content content"
  have "\<not> sublist ''{/*'' content"
    using assms(2) set_mono_sublist [of "''{/*''" content] by auto
  then have "remove_comments content = content" by (rule remove_comments_id)
  with assms(1) have tc: "tags_closed (remove_comments content)" by simp
  have "CHR ''{'' \<notin> set ?y"
    using assms(2) by (rule set_process_mdx_content) (simp add: newline_def)
  then have a: "\<not> sublist ''{/*'' ?y"
    using set_mono_sublist [of "''{/*''" ?y] by auto
  have b: "\<not> has_component_tag ?y"
    using stripper_eliminates [OF tc] by (auto simp: has_component_tag_def list_ex_iff)
  have c: "\<not> space_before_newline ?y" by (rule process_mdx_content_clean)
  from stripper_passthrough [OF a b c] have "process_mdx_content ?y = strip ?y" .
  also have "\<dots> = ?y" by (simp add: process_mdx_content_def strip_idem)
  finally show ?thesis .
qed

section \<open>Properties of the Markup Stripper on concrete documents\<close>

text \<open>
  C6, as amended. On \<open><Tabs><Tabs>inner</Tabs>outer</Tabs>\<close> the paired-tag pass ends
  the region at the first closing tag and leaves \<open>outer</Tabs>\<close>; the pass over the
  remaining bare tags then deletes the leftover \<open></Tabs>\<close>, so the stripper returns
  \<open>outer\<close>.
\<close>

theorem nested_same_tag:
  \<open>remove_paired ''<Tabs><Tabs>inner</Tabs>outer</Tabs>'' = ''outer</Tabs>''
   \<and> process_mdx_content ''<Tabs><Tabs>inner</Tabs>outer</Tabs>'' = ''outer''\<close>
  by code_simp

text \<open>C6 as stated fails: the stripper does not return \<open>outer</Tabs>\<close>.\<close>

theorem nested_same_tag_counterexample:
  \<open>process_mdx_content ''<Tabs><Tabs>inner</Tabs>outer</Tabs>'' \<noteq> ''outer</Tabs>''\<close>
  by code_simp

text \<open>
  C3. On \<open>a\n\n\nb\<close> the first substitution leaves two newlines, one blank line. The
  third, \<open>\s+\n\<close>, then matches the first of them as \<open>\s+\<close> and the second as \<open>\n\<close>,
  and replaces both by one newline: no blank line survives the pass.
\<close>

theorem blank_line_lost:
  \<open>sub blank_lines_pat [newline, newline] ''a\<newline>\<newline>\<newline>b'' = ''a\<newline>\<newline>b''
   \<and> sub trailing_space_pat [newline] ''a\<newline>\<newline>b'' = ''a\<newline>b''
   \<and> clean_whitespace ''a\<newline>\<newline>\<newline>b'' = ''a\<newline>b''
   \<and> process_mdx_content ''a\<newline>\<newline>\<newline>b'' = ''a\<newline>b''\<close>
  by code_simp

text \<open>The same holds of every document: the output never has two newlines in a row.\<close>

lemma no_blank_line_survives:
  "\<not> sublist [newline, newline] (process_mdx_content content)"
  using process_mdx_content_clean [of content] sbn_iff isspace_newline by blast

section \<open>Properties of the Markup Stripper on every document\<close>

text \<open>
  C1, as amended. For every document in which, once the Mintlify comment blocks are
  deleted, every \<open><\<close> is followed by a \<open>>\<close> before any further \<open><\<close>, the output of the
  stripper has no \<open><Name\<close> and no \<open></Name>\<close> for any name of the component list of
  \<open>process_mdx_content\<close>.
\<close>

theorem component_tags_eliminated:
  assumes "tags_closed (remove_comments content)" and "component \<in> set components"
  shows "\<not> sublist (''<'' @ component) (process_mdx_content content)
    \<and> \<not> sublist (''</'' @ component @ ''>'') (process_mdx_content content)"
  using assms by (rule stripper_eliminates)

theorem component_tags_eliminated_witness:
  \<open>tags_closed (remove_comments ''a<CardGroup cols="2">b</Card>c<Card/>'')
   \<and> ''Card'' \<in> set components
   \<and> \<not> sublist (''<'' @ ''Card'') (process_mdx_content ''a<CardGroup cols="2">b</Card>c<Card/>'')
   \<and> \<not> sublist (''</'' @ ''Card'' @ ''>'')
         (process_mdx_content ''a<CardGroup cols="2">b</Card>c<Card/>'')\<close>
proof -
  have h1: \<open>tags_closed (remove_comments ''a<CardGroup cols="2">b</Card>c<Card/>'')\<close>
    by code_simp
  have h2: "''Card'' \<in> set components" by code_simp
  from component_tags_eliminated [OF h1 h2] h1 h2 show ?thesis by blast
qed

text \<open>
  C1 as stated fails: a \<open><Card\<close> that is never closed by a \<open>>\<close> is matched by none of
  the patterns and stays in the output.
\<close>

theorem component_tags_eliminated_counterexample:
  \<open>''Card'' \<in> set components \<and> sublist (''<'' @ ''Card'') (process_mdx_content ''<Card'')\<close>
  by code_simp

text \<open>
  The name \<open>Tab\<close> is not in the component list of \<open>process_mdx_content\<close>, and its tags
  are left in place.
\<close>

lemma tab_left_in_place:
  \<open>''Tab'' \<notin> set components \<and> process_mdx_content ''<Tab>x</Tab>'' = ''<Tab>x</Tab>''\<close>
  by code_simp

text \<open>
  C2, as amended. A document that has no comment opener \<open>{/*\<close>, no \<open><Name\<close> or
  \<open></Name>\<close> for a name of the component list, and no whitespace character just before
  a newline is returned with its leading and trailing whitespace trimmed and no other
  change.
\<close>

theorem clean_document_passes_through:
  assumes "\<not> sublist ''{/*'' content" and "\<not> has_component_tag content"
    and "\<not> space_before_newline content"
  shows "process_mdx_content content = strip content"
  using assms by (rule stripper_passthrough)

theorem clean_document_passes_through_witness:
  \<open>\<not> sublist ''{/*'' ''  # Title\<newline>Some <b>text</b> {here}\<newline>- item  ''
   \<and> \<not> has_component_tag ''  # Title\<newline>Some <b>text</b> {here}\<newline>- item  ''
   \<and> \<not> space_before_newline ''  # Title\<newline>Some <b>text</b> {here}\<newline>- item  ''
   \<and> process_mdx_content ''  # Title\<newline>Some <b>text</b> {here}\<newline>- item  ''
       = ''# Title\<newline>Some <b>text</b> {here}\<newline>- item''\<close>
proof -
  let ?c = "''  # Title\<newline>Some <b>text</b> {here}\<newline>- item  ''"
  have h1: "\<not> sublist ''{/*'' ?c" by code_simp
  have h2: "\<not> has_component_tag ?c" by code_simp
  have h3: "\<not> space_before_newline ?c" by code_simp
  have "strip ?c = ''# Title\<newline>Some <b>text</b> {here}\<newline>- item''" by code_simp
  with clean_document_passes_through [OF h1 h2 h3] h1 h2 h3 show ?thesis by simp
qed

text \<open>
  C2 as stated fails: a document with no frontmatter and no tag, with a space at the end
  of its first line, loses that space, which trimming the ends does not remove.
\<close>

theorem clean_document_passes_through_counterexample:
  \<open>frontmatter_match ''a \<newline>b'' = None \<and> \<not> has_component_tag ''a \<newline>b''
   \<and> process_mdx_content ''a \<newline>b'' = ''a\<newline>b'' \<and> strip ''a \<newline>b'' = ''a \<newline>b''
   \<and> process_mdx_content ''a \<newline>b'' \<noteq> strip ''a \<newline>b''\<close>
  by code_simp

text \<open>
  C8, as amended. On every document that has no \<open>{\<close> and in which every \<open><\<close> is followed
  by a \<open>>\<close> before any further \<open><\<close>, running the stripper on its own output gives that
  output again.
\<close>

theorem stripper_twice:
  assumes "tags_closed content" and "CHR ''{'' \<notin> set content"
  shows "process_mdx_content (process_mdx_content content) = process_mdx_content content"
  using assms by (rule stripper_idempotent)

theorem stripper_twice_witness:
  \<open>tags_closed ''<Steps> <Step title="a > b"/>\<newline>\<newline>\<newline>text </Card>\<newline><Tab>t</Tab>''
   \<and> CHR ''{'' \<notin> set ''<Steps> <Step title="a > b"/>\<newline>\<newline>\<newline>text </Card>\<newline><Tab>t</Tab>''
   \<and> process_mdx_content ''<Steps> <Step title="a > b"/>\<newline>\<newline>\<newline>text </Card>\<newline><Tab>t</Tab>''
       = ''b"/>\<newline>text\<newline><Tab>t</Tab>''
   \<and> process_mdx_content ''b"/>\<newline>text\<newline><Tab>t</Tab>'' = ''b"/>\<newline>text\<newline><Tab>t</Tab>''\<close>
proof -
  let ?c = \<open>''<Steps> <Step title="a > b"/>\<newline>\<newline>\<newline>text </Card>\<newline><Tab>t</Tab>''\<close>
  have h1: "tags_closed ?c" by code_simp
  have h2: "CHR ''{'' \<notin> set ?c" by code_simp
  have e: \<open>process_mdx_content ?c = ''b"/>\<newline>text\<newline><Tab>t</Tab>''\<close> by code_simp
  from stripper_twice [OF h1 h2] e h1 h2 show ?thesis by simp
qed

text \<open>
  C8 as stated fails: the only tag of \<open>{/<Card/>* Mintlify */}\<close> is one self-closing
  component tag. Deleting it leaves a Mintlify comment block in the output, and a second
  run deletes that block.
\<close>

theorem stripper_twice_counterexample:
  \<open>process_mdx_content ''{/<Card/>* Mintlify */}'' = ''{/* Mintlify */}''
   \<and> process_mdx_content (process_mdx_content ''{/<Card/>* Mintlify */}'') = []
   \<and> process_mdx_content (process_mdx_content ''{/<Card/>* Mintlify */}'')
       \<noteq> process_mdx_content ''{/<Card/>* Mintlify */}''\<close>
  by code_simp

section \<open>Properties of the Frontmatter Normalizer on concrete documents\<close>

text \<open>
  C4. For the three spellings of the title, the value handed to \<open>yaml.dump\<close> is the
  seven characters \<open>"Hello"\<close>, and the line written is \<open>title: '"Hello"'\<close>, the value
  in single quotes around the double quotes, not \<open>title: "Hello"\<close>.
\<close>

theorem title_quoted_twice:
  \<open>clean_frontmatter yaml_safe_load yaml_dump
     (''---\<newline>title: '' @ [squote] @ ''Hello'' @ [squote] @ ''\<newline>---\<newline>'')
     = Inr (''---\<newline>title: '' @ [squote] @ ''"Hello"'' @ [squote] @ ''\<newline>---\<newline>\<newline>'')
   \<and> clean_frontmatter yaml_safe_load yaml_dump ''---\<newline>title: "Hello"\<newline>---\<newline>''
     = Inr (''---\<newline>title: '' @ [squote] @ ''"Hello"'' @ [squote] @ ''\<newline>---\<newline>\<newline>'')
   \<and> clean_frontmatter yaml_safe_load yaml_dump ''---\<newline>title: Hello\<newline>---\<newline>''
     = Inr (''---\<newline>title: '' @ [squote] @ ''"Hello"'' @ [squote] @ ''\<newline>---\<newline>\<newline>'')\<close>
  by code_simp

text \<open>
  C5. The title is the first entry of the new field set, and the block written has the
  description before the title: the entries are written sorted by key.
\<close>

theorem title_not_first:
  \<open>build_new_fm (YMap [(YStr ''title'', YStr ''Hello''), (YStr ''description'', YStr ''World'')])
     = Inr [(''title'', YStr ''"Hello"''), (''description'', YStr ''"World"'')]
   \<and> clean_frontmatter yaml_safe_load yaml_dump
       ''---\<newline>title: Hello\<newline>description: World\<newline>---\<newline>''
     = Inr (''---\<newline>description: '' @ [squote] @ ''"World"'' @ [squote]
            @ ''\<newline>title: '' @ [squote] @ ''"Hello"'' @ [squote] @ ''\<newline>---\<newline>\<newline>'')\<close>
  by code_simp

text \<open>
  C7. A title that is not a string, here the integer 123, makes \<open>clean_frontmatter\<close>
  raise \<open>AttributeError\<close>, which its \<open>except yaml.YAMLError\<close> does not catch.
\<close>

theorem title_not_string_raises:
  \<open>yaml_safe_load ''title: 123'' = Inr (YMap [(YStr ''title'', YInt 123)])
   \<and> clean_frontmatter yaml_safe_load yaml_dump ''---\<newline>title: 123\<newline>---\<newline>''
     = Inl AttributeError\<close>
  by code_simp

text \<open>
  When the library raises \<open>YAMLError\<close> on the body, and when no block is found, the
  document is returned unchanged.
\<close>

lemma parse_failure_returns_content:
  assumes "frontmatter_match content = Some n"
    and "safe_load (group1 content n) = Inl YAMLError"
  shows "clean_frontmatter safe_load dump content = Inr content"
  using assms by (simp add: clean_frontmatter_def)

lemma no_frontmatter_returns_content:
  assumes "frontmatter_match content = None"
  shows "clean_frontmatter safe_load dump content = Inr content"
  using assms by (simp add: clean_frontmatter_def)

section \<open>The new field set\<close>

lemma py_getitem_present:
  "YStr k \<in> fst ` set m \<Longrightarrow> \<exists>v. py_getitem (YMap m) k = Inr v"
  by (cases "map_of m (YStr k)") (auto simp: map_of_eq_None_iff)

lemma map_fields_keys:
  "map_fields (YMap m) mp acc = Inr new_fm \<Longrightarrow>
   fst ` set new_fm = fst ` set acc \<union>
     {new_key. \<exists>old_key. (old_key, new_key) \<in> set mp \<and> old_key \<noteq> ''title''
        \<and> YStr old_key \<in> fst ` set m}"
proof (induction mp arbitrary: acc)
  case Nil
  then show ?case by simp
next
  case (Cons a mp)
  obtain old_key new_key where a: "a = (old_key, new_key)" by (cases a)
  show ?case
  proof (cases "YStr old_key \<in> fst ` set m \<and> old_key \<noteq> ''title''")
    case True
    then obtain v where v: "py_getitem (YMap m) old_key = Inr v"
      using py_getitem_present by blast
    from Cons.prems a True v
    have "map_fields (YMap m) mp (AList.update new_key (clean_value v) acc) = Inr new_fm"
      by simp
    from Cons.IH [OF this] True a show ?thesis
      by (auto simp: AList.dom_update)
  next
    case False
    with Cons.prems a have "map_fields (YMap m) mp acc = Inr new_fm"
      by auto
    from Cons.IH [OF this] False a show ?thesis
      by auto
  qed
qed

lemma handle_title_keys:
  "handle_title (YMap m) = Inr acc \<Longrightarrow>
   fst ` set acc = {k. k = ''title'' \<and> YStr ''title'' \<in> fst ` set m}"
  by (auto simp: handle_title_def split: sum.splits if_splits yaml.splits)

lemma build_new_fm_keys:
  assumes "build_new_fm (YMap m) = Inr new_fm"
  shows "fst ` set new_fm =
    {new_key. \<exists>old_key. (old_key, new_key) \<in> set frontmatter_mapping
       \<and> YStr old_key \<in> fst ` set m}"
proof -
  from assms obtain acc where acc: "handle_title (YMap m) = Inr acc"
    and mf: "map_fields (YMap m) frontmatter_mapping acc = Inr new_fm"
    by (auto simp: build_new_fm_def split: sum.splits)
  have t: "\<And>k. (''title'', k) \<in> set frontmatter_mapping \<longleftrightarrow> k = ''title''"
    by (simp add: frontmatter_mapping_def)
  show ?thesis
    unfolding map_fields_keys [OF mf] handle_title_keys [OF acc]
    using t by blast
qed

lemma py_getitem_value:
  "py_getitem (YMap m) k = Inr v \<Longrightarrow> map_of m (YStr k) = Some v"
  by (auto split: option.splits)

lemma map_fields_entries:
  "map_fields (YMap m) mp acc = Inr new_fm \<Longrightarrow> map_of new_fm key = Some v'
   \<Longrightarrow> map_of acc key = Some v'
     \<or> (\<exists>old_key v. (old_key, key) \<in> set mp \<and> map_of m (YStr old_key) = Some v
           \<and> v' = clean_value v)"
proof (induction mp arbitrary: acc)
  case Nil
  then show ?case by simp
next
  case (Cons a mp)
  obtain old_key new_key where a: "a = (old_key, new_key)" by (cases a)
  show ?case
  proof (cases "YStr old_key \<in> fst ` set m \<and> old_key \<noteq> ''title''")
    case True
    then obtain v where v: "py_getitem (YMap m) old_key = Inr v"
      using py_getitem_present by blast
    from Cons.prems a True v
    have "map_fields (YMap m) mp (AList.update new_key (clean_value v) acc) = Inr new_fm"
      by simp
    from Cons.IH [OF this Cons.prems(2)]
    consider "map_of (AList.update new_key (clean_value v) acc) key = Some v'"
      | "\<exists>old_key v. (old_key, key) \<in> set mp \<and> map_of m (YStr old_key) = Some v
           \<and> v' = clean_value v"
      by blast
    then show ?thesis
    proof cases
      case 1
      show ?thesis
      proof (cases "key = new_key")
        case True
        with 1 have "v' = clean_value v" by (simp add: update_conv')
        with True a py_getitem_value [OF v] show ?thesis by auto
      next
        case False
        with 1 show ?thesis by (simp add: update_conv')
      qed
    next
      case 2
      with a show ?thesis by auto
    qed
  next
    case False
    with Cons.prems a have "map_fields (YMap m) mp acc = Inr new_fm"
      by auto
    from Cons.IH [OF this Cons.prems(2)] show ?thesis
      by auto
  qed
qed

lemma handle_title_entries:
  assumes "handle_title (YMap m) = Inr acc" and "map_of acc key = Some v'"
  shows "key = ''title'' \<and> (\<exists>v. map_of m (YStr ''title'') = Some v \<and> v' = clean_value v)"
proof -
  from assms obtain s where "py_getitem (YMap m) ''title'' = Inr (YStr s)"
    and "acc = [(''title'', YStr (requote s))]"
    by (auto simp: handle_title_def split: sum.splits if_splits yaml.splits)
  with assms(2) py_getitem_value [of m "''title''" "YStr s"] show ?thesis
    by (auto simp: clean_value_def split: if_splits)
qed

lemma build_new_fm_entries:
  assumes "build_new_fm (YMap m) = Inr new_fm" and "map_of new_fm key = Some v'"
  shows "\<exists>old_key v. (old_key, key) \<in> set frontmatter_mapping
           \<and> map_of m (YStr old_key) = Some v \<and> v' = clean_value v"
proof -
  from assms obtain acc where acc: "handle_title (YMap m) = Inr acc"
    and mf: "map_fields (YMap m) frontmatter_mapping acc = Inr new_fm"
    by (auto simp: build_new_fm_def split: sum.splits)
  have t: "(''title'', ''title'') \<in> set frontmatter_mapping"
    by (simp add: frontmatter_mapping_def)
  from map_fields_entries [OF mf assms(2)] handle_title_entries [OF acc] t
  show ?thesis by blast
qed

text \<open>
  C9. When the body parses to a dict and the new field set is built and written, the
  document returned starts with the block written from the new field set. The keys of
  the new field set are exactly the targets of the mapped fields that the input has,
  and each of its values is the cleaned value of a mapped field of the input: an input
  field with no entry in the mapping table contributes nothing to the output, and no
  mapped field is invented.
\<close>

theorem unmapped_fields_dropped:
  assumes "frontmatter_match content = Some n"
    and "safe_load (group1 content n) = Inr (YMap m)"
    and "build_new_fm (YMap m) = Inr new_fm"
    and "dump new_fm = Inr block"
  shows "clean_frontmatter safe_load dump content
           = Inr (''---'' @ [newline] @ block @ ''---'' @ [newline] @ drop n content)
         \<and> fst ` set new_fm =
           {new_key. \<exists>old_key. (old_key, new_key) \<in> set frontmatter_mapping
              \<and> YStr old_key \<in> fst ` set m}
         \<and> (\<forall>new_key v'. map_of new_fm new_key = Some v' \<longrightarrow>
              (\<exists>old_key v. (old_key, new_key) \<in> set frontmatter_mapping
                 \<and> map_of m (YStr old_key) = Some v \<and> v' = clean_value v))"
proof -
  have "(if truthy (YMap m) then YMap m else YMap []) = YMap m"
    by simp
  with assms have "clean_frontmatter safe_load dump content
           = Inr (''---'' @ [newline] @ block @ ''---'' @ [newline] @ drop n content)"
    by (simp add: clean_frontmatter_def)
  with build_new_fm_keys [OF assms(3)] build_new_fm_entries [OF assms(3)]
  show ?thesis by blast
qed

lemma build_new_fm_empty:
  assumes "\<forall>(old_key, new_key) \<in> set frontmatter_mapping. py_in old_key fm_data = Inr False"
  shows "build_new_fm fm_data = Inr []"
  using assms by (simp add: build_new_fm_def handle_title_def frontmatter_mapping_def)

text \<open>
  C10. When the block is found and its body parses to a value in which none of the
  mapped fields is present (or to an empty value, which the code replaces by the empty
  dict), the new field set is empty, and the document returned begins with a block
  whose body is the line \<open>{}\<close>, which is how the library writes an empty dict.
\<close>

theorem empty_block_written:
  assumes "frontmatter_match content = Some n"
    and "safe_load (group1 content n) = Inr parsed"
    and "truthy parsed \<Longrightarrow>
           \<forall>(old_key, new_key) \<in> set frontmatter_mapping. py_in old_key parsed = Inr False"
    and "dump [] = Inr (''{}'' @ [newline])"
  shows "clean_frontmatter safe_load dump content
           = Inr (''---'' @ [newline] @ ''{}'' @ [newline] @ ''---'' @ [newline] @ drop n content)"
proof -
  let ?fm = "if truthy parsed then parsed else YMap []"
  have "\<forall>(old_key, new_key) \<in> set frontmatter_mapping. py_in old_key ?fm = Inr False"
    using assms(3) by (cases "truthy parsed") (auto simp: frontmatter_mapping_def)
  then have "build_new_fm ?fm = Inr []"
    by (rule build_new_fm_empty)
  with assms(1,2,4) show ?thesis
    by (simp add: clean_frontmatter_def)
qed

theorem empty_block_written_witness:
  \<open>frontmatter_match ''---\<newline>author: Bob\<newline>---\<newline>body'' = Some 19
   \<and> yaml_safe_load (group1 ''---\<newline>author: Bob\<newline>---\<newline>body'' 19)
       = Inr (YMap [(YStr ''author'', YStr ''Bob'')])
   \<and> clean_frontmatter yaml_safe_load yaml_dump ''---\<newline>author: Bob\<newline>---\<newline>body''
       = Inr ''---\<newline>{}\<newline>---\<newline>\<newline>body''\<close>
proof -
  let ?c = "''---\<newline>author: Bob\<newline>---\<newline>body''"
  have h1: "frontmatter_match ?c = Some 19" by code_simp
  have h2: "yaml_safe_load (group1 ?c 19) = Inr (YMap [(YStr ''author'', YStr ''Bob'')])"
    by code_simp
  have h3: "\<forall>(old_key, new_key) \<in> set frontmatter_mapping.
              py_in old_key (YMap [(YStr ''author'', YStr ''Bob'')]) = Inr False"
    by code_simp
  have h4: "yaml_dump [] = Inr (''{}'' @ [newline])" by code_simp
  have "clean_frontmatter yaml_safe_load yaml_dump ?c
          = Inr (''---'' @ [newline] @ ''{}'' @ [newline] @ ''---'' @ [newline] @ drop 19 ?c)"
    using empty_block_written [where safe_load = yaml_safe_load and dump = yaml_dump, OF h1 h2 h3 h4] .
  moreover have "''---'' @ [newline] @ ''{}'' @ [newline] @ ''---'' @ [newline] @ drop 19 ?c
                  = ''---\<newline>{}\<newline>---\<newline>\<newline>body''"
    by code_simp
  ultimately show ?thesis using h1 h2 by simp
qed

theorem unmapped_fields_dropped_witness:
  \<open>frontmatter_match
       ''---\<newline>sidebarTitle: Intro\<newline>sidebar_label: Old\<newline>author: Bob\<newline>---\<newline>body'' = Some 58
   \<and> clean_frontmatter yaml_safe_load yaml_dump
       ''---\<newline>sidebarTitle: Intro\<newline>sidebar_label: Old\<newline>author: Bob\<newline>---\<newline>body''
       = Inr (''---\<newline>sidebar_label: '' @ [squote] @ ''"Intro"'' @ [squote]
              @ ''\<newline>---\<newline>\<newline>body'')
   \<and> fst ` set [(''sidebar_label'', YStr ''"Intro"'')] =
       {new_key. \<exists>old_key. (old_key, new_key) \<in> set frontmatter_mapping
          \<and> YStr old_key \<in> fst ` set [(YStr ''sidebarTitle'', YStr ''Intro''),
               (YStr ''sidebar_label'', YStr ''Old''), (YStr ''author'', YStr ''Bob'')]}
   \<and> (\<exists>old_key v. (old_key, ''sidebar_label'') \<in> set frontmatter_mapping
         \<and> map_of [(YStr ''sidebarTitle'', YStr ''Intro''),
               (YStr ''sidebar_label'', YStr ''Old''), (YStr ''author'', YStr ''Bob'')]
              (YStr old_key) = Some v
         \<and> YStr ''"Intro"'' = clean_value v)\<close>
proof -
  let ?c = "''---\<newline>sidebarTitle: Intro\<newline>sidebar_label: Old\<newline>author: Bob\<newline>---\<newline>body''"
  let ?m = "[(YStr ''sidebarTitle'', YStr ''Intro''), (YStr ''sidebar_label'', YStr ''Old''),
             (YStr ''author'', YStr ''Bob'')]"
  have h1: "frontmatter_match ?c = Some 58" by code_simp
  have h2: "yaml_safe_load (group1 ?c 58) = Inr (YMap ?m)" by code_simp
  have h3: \<open>build_new_fm (YMap ?m) = Inr [(''sidebar_label'', YStr ''"Intro"'')]\<close>
    by code_simp
  have h4: \<open>yaml_dump [(''sidebar_label'', YStr ''"Intro"'')]
              = Inr (''sidebar_label: '' @ [squote] @ ''"Intro"'' @ [squote] @ [newline])\<close>
    by code_simp
  have e: \<open>''---'' @ [newline]
             @ (''sidebar_label: '' @ [squote] @ ''"Intro"'' @ [squote] @ [newline])
             @ ''---'' @ [newline] @ drop 58 ?c
           = ''---\<newline>sidebar_label: '' @ [squote] @ ''"Intro"'' @ [squote]
              @ ''\<newline>---\<newline>\<newline>body''\<close>
    by code_simp
  have l: \<open>map_of [(''sidebar_label'', YStr ''"Intro"'')] ''sidebar_label''
             = Some (YStr ''"Intro"'')\<close>
    by simp
  from unmapped_fields_dropped
         [where safe_load = yaml_safe_load and dump = yaml_dump, OF h1 h2 h3 h4]
  have 1: \<open>clean_frontmatter yaml_safe_load yaml_dump ?c
        = Inr (''---'' @ [newline]
             @ (''sidebar_label: '' @ [squote] @ ''"Intro"'' @ [squote] @ [newline])
             @ ''---'' @ [newline] @ drop 58 ?c)\<close>
    and 2: \<open>fst ` set [(''sidebar_label'', YStr ''"Intro"'')] =
       {new_key. \<exists>old_key. (old_key, new_key) \<in> set frontmatter_mapping
          \<and> YStr old_key \<in> fst ` set ?m}\<close>
    and 3: \<open>\<forall>new_key v'. map_of [(''sidebar_label'', YStr ''"Intro"'')] new_key = Some v' \<longrightarrow>
              (\<exists>old_key v. (old_key, new_key) \<in> set frontmatter_mapping
                 \<and> map_of ?m (YStr old_key) = Some v \<and> v' = clean_value v)\<close>
    by blast+
  from 3 l have \<open>\<exists>old_key v. (old_key, ''sidebar_label'') \<in> set frontmatter_mapping
                 \<and> map_of ?m (YStr old_key) = Some v \<and> YStr ''"Intro"'' = clean_value v\<close>
    by blast
  with 1 2 e h1 show ?thesis by (simp only:) 
qed

end
